theory Spec2Isabelle
  imports Complex_Main "HOL-Library.Word" "HOL-Library.Log_Nat"
begin

unbundle bit_operations_syntax

section \<open>Machine types, memory and errors\<close>

text \<open>
  The header \<^verbatim>\<open>compression.h\<close> works on raw byte pointers. Memory is a list of bytes and
  a pointer is an index into it. The template parameter \<^verbatim>\<open>TVal\<close> is a word type
  \<open>'a word\<close> together with a flag \<open>sg\<close> telling whether the instantiation is a signed
  type (\<^verbatim>\<open>i64\<close>) or an unsigned one (\<^verbatim>\<open>u32\<close>, \<^verbatim>\<open>u64\<close>): only the right shift
  \<^verbatim>\<open>>>\<close> depends on it (arithmetic for signed operands, logical for unsigned ones).
\<close>

type_synonym byte = "8 word"
type_synonym u16 = "16 word"
type_synonym u64 = "64 word"
type_synonym i64 = "64 word"

text \<open>
  \<^verbatim>\<open>assert\<close> aborts when it is compiled in; \<^verbatim>\<open>AKU_PANIC\<close> throws
  \<^verbatim>\<open>Akumuli::Exception\<close>. The flag \<open>nd\<close> of the functions below stands for
  \<^verbatim>\<open>NDEBUG\<close>: when it is set the assertions are compiled out. \<open>OutOfBounds\<close> is a read
  at an address outside the memory, which C++ leaves undefined.
\<close>

datatype error = AssertionFailed | Panic | OutOfBounds

definition shr :: "bool \<Rightarrow> nat \<Rightarrow> 'a::len word \<Rightarrow> 'a word" where
  "shr sg n v = (if sg then signed_drop_bit n v else drop_bit n v)"

text \<open>
  Storing the bytes \<open>bs\<close> at the address \<open>p\<close> (a raw store through a cast pointer), and
  the little-endian bytes of a number: \<open>le_bytes k n\<close> are the \<open>k\<close> low-order bytes of
  \<open>n\<close>, \<open>le_value\<close> is the number a list of bytes stands for.
\<close>

definition splice :: "byte list \<Rightarrow> nat \<Rightarrow> byte list \<Rightarrow> byte list" where
  "splice m p bs = take p m @ bs @ drop (p + length bs) m"

fun le_bytes :: "nat \<Rightarrow> nat \<Rightarrow> byte list" where
  "le_bytes 0 n = []"
| "le_bytes (Suc k) n = of_nat (n mod 256) # le_bytes k (n div 256)"

fun le_value :: "byte list \<Rightarrow> nat" where
  "le_value [] = 0"
| "le_value (b # bs) = unat b + 256 * le_value bs"

section \<open>Base128Int\<close>

text \<open>
  \<^verbatim>\<open>Base128Int<TVal>::put(begin, end)\<close>. The loop leaves through \<^verbatim>\<open>p == end\<close>; the
  function is entered with \<^verbatim>\<open>begin < end\<close> and \<^verbatim>\<open>p\<close> grows by one, so \<open>fin \<le> p\<close>
  is the same test. The bytes stored before a failure stay in memory, only the returned
  pointer is \<^verbatim>\<open>begin\<close>.
\<close>

function Base128Int_put_loop ::
  "bool \<Rightarrow> 'a::len word \<Rightarrow> byte list \<Rightarrow> nat \<Rightarrow> nat \<Rightarrow> nat \<Rightarrow> byte list \<times> nat" where
  "Base128Int_put_loop sg val m bgn fin p =
     (if fin \<le> p then (m, bgn)
      else let b = (ucast (val AND 0x7F) :: byte); val' = shr sg 7 val
           in if val' \<noteq> 0
              then Base128Int_put_loop sg val' (m[p := b OR 0x80]) bgn fin (Suc p)
              else (m[p := b], Suc p))"
  by pat_completeness auto
termination
  by (relation "measure (\<lambda>(sg, val, m, bgn, fin, p). fin - p)") auto

definition Base128Int_put ::
  "bool \<Rightarrow> 'a::len word \<Rightarrow> byte list \<Rightarrow> nat \<Rightarrow> nat \<Rightarrow> byte list \<times> nat" where
  "Base128Int_put sg val0 m bgn fin =
     (if fin \<le> bgn then (m, bgn) else Base128Int_put_loop sg val0 m bgn fin bgn)"

text \<open>
  \<^verbatim>\<open>Base128Int<TVal>::get(begin, end)\<close>. The result is the returned pointer and the new
  \<^verbatim>\<open>value_\<close> (unchanged when the loop runs into \<^verbatim>\<open>end\<close>). \<^verbatim>\<open>TVal(i) << cnt\<close> is
  \<open>push_bit\<close>; C++ leaves the shift undefined once \<^verbatim>\<open>cnt\<close> reaches the width of
  \<^verbatim>\<open>TVal\<close>, which no encoding written by \<^verbatim>\<open>put\<close> does. The loop is left at
  \<^verbatim>\<open>p == end\<close> only: entered behind \<^verbatim>\<open>end\<close> (possible when the assertion is compiled
  out) it reads on, up to a byte without the continuation bit or to the end of the memory.
\<close>

function Base128Int_get_loop ::
  "byte list \<Rightarrow> nat \<Rightarrow> nat \<Rightarrow> nat \<Rightarrow> 'a::len word \<Rightarrow> 'a word
     \<Rightarrow> error + (nat \<times> 'a word option)" where
  "Base128Int_get_loop m bgn fin p acc cnt =
     (if p = fin then Inr (bgn, None)
      else if length m \<le> p then Inl OutOfBounds
      else let i = (m ! p) AND 0x7F; acc' = acc OR push_bit (unat cnt) (ucast i)
           in if (m ! p) AND 0x80 = 0 then Inr (Suc p, Some acc')
              else Base128Int_get_loop m bgn fin (Suc p) acc' (cnt + 7))"
  by pat_completeness auto
termination
  by (relation "measure (\<lambda>(m, bgn, fin, p, acc, cnt). length m - p)") auto

definition Base128Int_get ::
  "bool \<Rightarrow> 'a::len word \<Rightarrow> byte list \<Rightarrow> nat \<Rightarrow> nat \<Rightarrow> error + (nat \<times> 'a word)" where
  "Base128Int_get nd val0 m bgn fin =
     (if \<not> nd \<and> \<not> bgn < fin then Inl AssertionFailed
      else case Base128Int_get_loop m bgn fin bgn 0 0 of
             Inl e \<Rightarrow> Inl e
           | Inr (p, None) \<Rightarrow> Inr (p, val0)
           | Inr (p, Some acc) \<Rightarrow> Inr (p, acc))"

section \<open>Base128StreamWriter\<close>

record Base128StreamWriter =
  w_mem :: "byte list"
  w_begin :: nat
  w_end :: nat
  w_pos :: nat

definition Base128StreamWriter_new :: "byte list \<Rightarrow> nat \<Rightarrow> nat \<Rightarrow> Base128StreamWriter" where
  "Base128StreamWriter_new m bgn fin = \<lparr>w_mem = m, w_begin = bgn, w_end = fin, w_pos = bgn\<rparr>"

definition Base128StreamWriter_put ::
  "bool \<Rightarrow> Base128StreamWriter \<Rightarrow> 'a::len word \<Rightarrow> bool \<times> Base128StreamWriter" where
  "Base128StreamWriter_put sg w v =
     (case Base128Int_put sg v (w_mem w) (w_pos w) (w_end w) of
        (m, p) \<Rightarrow> if w_pos w = p then (False, w\<lparr>w_mem := m\<rparr>)
                  else (True, w\<lparr>w_mem := m, w_pos := p\<rparr>))"

definition Base128StreamWriter_commit :: "Base128StreamWriter \<Rightarrow> bool" where
  "Base128StreamWriter_commit w = True"

fun Base128StreamWriter_tput_loop ::
  "bool \<Rightarrow> Base128StreamWriter \<Rightarrow> 'a::len word list \<Rightarrow> bool \<times> Base128StreamWriter" where
  "Base128StreamWriter_tput_loop sg w [] = (True, w)"
| "Base128StreamWriter_tput_loop sg w (v # vs) =
     (case Base128StreamWriter_put sg w v of
        (False, w') \<Rightarrow> (False, w')
      | (True, w') \<Rightarrow> Base128StreamWriter_tput_loop sg w' vs)"

definition Base128StreamWriter_tput ::
  "bool \<Rightarrow> Base128StreamWriter \<Rightarrow> 'a::len word list \<Rightarrow> bool \<times> Base128StreamWriter" where
  "Base128StreamWriter_tput sg w iter =
     (let oldpos = w_pos w
      in case Base128StreamWriter_tput_loop sg w iter of
           (False, w') \<Rightarrow> (False, w'\<lparr>w_pos := oldpos\<rparr>)
         | (True, w') \<Rightarrow> (Base128StreamWriter_commit w', w'))"

text \<open>
  \<^verbatim>\<open>put_raw<TVal>(value)\<close> and \<^verbatim>\<open>allocate<T>()\<close>: \<open>bs\<close> are the \<^verbatim>\<open>sizeof(TVal)\<close> bytes of
  the value, \<open>sz\<close> is \<^verbatim>\<open>sizeof(T)\<close>; \<^verbatim>\<open>allocate\<close> returns the address, or \<open>None\<close> for
  \<^verbatim>\<open>nullptr\<close>.
\<close>

definition Base128StreamWriter_put_raw ::
  "Base128StreamWriter \<Rightarrow> byte list \<Rightarrow> bool \<times> Base128StreamWriter" where
  "Base128StreamWriter_put_raw w bs =
     (if w_end w - w_pos w < length bs then (False, w)
      else (True, w\<lparr>w_mem := splice (w_mem w) (w_pos w) bs, w_pos := w_pos w + length bs\<rparr>))"

definition Base128StreamWriter_allocate ::
  "Base128StreamWriter \<Rightarrow> nat \<Rightarrow> nat option \<times> Base128StreamWriter" where
  "Base128StreamWriter_allocate w sz =
     (if w_end w - w_pos w < sz then (None, w)
      else (Some (w_pos w), w\<lparr>w_pos := w_pos w + sz\<rparr>))"

definition size_w :: "Base128StreamWriter \<Rightarrow> nat" where
  "size_w w = w_pos w - w_begin w"

definition space_left_w :: "Base128StreamWriter \<Rightarrow> nat" where
  "space_left_w w = w_end w - w_pos w"

section \<open>Base128StreamReader\<close>

record Base128StreamReader =
  r_mem :: "byte list"
  r_pos :: nat
  r_end :: nat

definition Base128StreamReader_new :: "byte list \<Rightarrow> nat \<Rightarrow> nat \<Rightarrow> Base128StreamReader" where
  "Base128StreamReader_new m bgn fin = \<lparr>r_mem = m, r_pos = bgn, r_end = fin\<rparr>"

definition Base128StreamReader_next ::
  "bool \<Rightarrow> Base128StreamReader \<Rightarrow> error + ('a::len word \<times> Base128StreamReader)" where
  "Base128StreamReader_next nd r =
     (case Base128Int_get nd 0 (r_mem r) (r_pos r) (r_end r) of
        Inl e \<Rightarrow> Inl e
      | Inr (p, v) \<Rightarrow> if p = r_pos r then Inl Panic else Inr (v, r\<lparr>r_pos := p\<rparr>))"

text \<open>
  \<^verbatim>\<open>read_raw<TVal>()\<close>, with \<open>sz\<close> for \<^verbatim>\<open>sizeof(TVal)\<close>: the bytes of the value as they lie
  in memory.
\<close>

definition Base128StreamReader_read_raw ::
  "Base128StreamReader \<Rightarrow> nat \<Rightarrow> error + (byte list \<times> Base128StreamReader)" where
  "Base128StreamReader_read_raw r sz =
     (if r_end r - r_pos r < sz then Inl Panic
      else Inr (take sz (drop (r_pos r) (r_mem r)), r\<lparr>r_pos := r_pos r + sz\<rparr>))"

section \<open>Integer transforms\<close>

text \<open>
  The filters are templates over the stream below them. A template argument \<^verbatim>\<open>Stream\<close>
  is a function argument here: the \<^verbatim>\<open>put\<close>, \<^verbatim>\<open>tput\<close>, \<^verbatim>\<open>commit\<close> or \<^verbatim>\<open>next\<close> of
  the inner stream, which works on the shared byte stream and on the inner stream's own
  state \<open>'s\<close>. Every writer operation returns the \<^verbatim>\<open>bool\<close> of the source, the byte
  stream and the filter state.
\<close>

subsection \<open>RLEStreamWriter and RLEStreamReader\<close>

record 'v RLEStreamWriter =
  rle_prev :: 'v
  rle_reps :: 'v
  start_size :: nat

definition RLEStreamWriter_new :: "Base128StreamWriter \<Rightarrow> 'a::len word RLEStreamWriter" where
  "RLEStreamWriter_new stream = \<lparr>rle_prev = 0, rle_reps = 0, start_size = size_w stream\<rparr>"

text \<open>The loop of \<^verbatim>\<open>tput\<close>: \<open>outbuf\<close> is \<^verbatim>\<open>outbuf[0..outpos)\<close>.\<close>

fun RLEStreamWriter_tput_loop ::
  "'a::len word list \<Rightarrow> 'a word \<Rightarrow> 'a word \<Rightarrow> 'a word list
     \<Rightarrow> 'a word list \<times> 'a word \<times> 'a word" where
  "RLEStreamWriter_tput_loop [] prev reps outbuf = (outbuf, prev, reps)"
| "RLEStreamWriter_tput_loop (v # vs) prev reps outbuf =
     (if v \<noteq> prev
      then RLEStreamWriter_tput_loop vs v (0 + 1)
             (if reps \<noteq> 0 then outbuf @ [reps, prev] else outbuf)
      else RLEStreamWriter_tput_loop vs prev (reps + 1) outbuf)"

definition RLEStreamWriter_tput ::
  "bool \<Rightarrow> bool \<Rightarrow> Base128StreamWriter \<Rightarrow> 'a::len word RLEStreamWriter \<Rightarrow> 'a word list
     \<Rightarrow> error + (bool \<times> Base128StreamWriter \<times> 'a word RLEStreamWriter)" where
  "RLEStreamWriter_tput sg nd stream s iter =
     (case RLEStreamWriter_tput_loop iter (rle_prev s) (rle_reps s) [] of
        (outbuf, prev, reps) \<Rightarrow>
          let outbuf' = (if length outbuf < length iter * 2 then outbuf @ [reps, prev]
                         else outbuf);
              s' = s\<lparr>rle_prev := 0, rle_reps := 0\<rparr>
          in case Base128StreamWriter_tput sg stream outbuf' of
               (ok, stream') \<Rightarrow> Inr (ok, stream', s'))"

definition RLEStreamWriter_put ::
  "bool \<Rightarrow> Base128StreamWriter \<Rightarrow> 'a::len word RLEStreamWriter \<Rightarrow> 'a word
     \<Rightarrow> bool \<times> Base128StreamWriter \<times> 'a word RLEStreamWriter" where
  "RLEStreamWriter_put sg stream s v =
     (if v \<noteq> rle_prev s then
        (if rle_reps s \<noteq> 0 then
           (case Base128StreamWriter_put sg stream (rle_reps s) of
              (False, stream') \<Rightarrow> (False, stream', s)
            | (True, stream') \<Rightarrow>
                (case Base128StreamWriter_put sg stream' (rle_prev s) of
                   (False, stream'') \<Rightarrow> (False, stream'', s)
                 | (True, stream'') \<Rightarrow> (True, stream'', s\<lparr>rle_prev := v, rle_reps := 0 + 1\<rparr>)))
         else (True, stream, s\<lparr>rle_prev := v, rle_reps := 0 + 1\<rparr>))
      else (True, stream, s\<lparr>rle_reps := rle_reps s + 1\<rparr>))"

definition RLEStreamWriter_commit ::
  "bool \<Rightarrow> Base128StreamWriter \<Rightarrow> 'a::len word RLEStreamWriter
     \<Rightarrow> bool \<times> Base128StreamWriter \<times> 'a word RLEStreamWriter" where
  "RLEStreamWriter_commit sg stream s =
     (case Base128StreamWriter_put sg stream (rle_reps s) of
        (False, stream') \<Rightarrow> (False, stream', s)
      | (True, stream') \<Rightarrow>
          (case Base128StreamWriter_put sg stream' (rle_prev s) of
             (False, stream'') \<Rightarrow> (False, stream'', s)
           | (True, stream'') \<Rightarrow> (Base128StreamWriter_commit stream'', stream'', s)))"

record 'v RLEStreamReader =
  rd_prev :: 'v
  rd_reps :: 'v

definition RLEStreamReader_new :: "'a::len word RLEStreamReader" where
  "RLEStreamReader_new = \<lparr>rd_prev = 0, rd_reps = 0\<rparr>"

definition RLEStreamReader_next ::
  "bool \<Rightarrow> Base128StreamReader \<Rightarrow> 'a::len word RLEStreamReader
     \<Rightarrow> error + ('a word \<times> Base128StreamReader \<times> 'a word RLEStreamReader)" where
  "RLEStreamReader_next nd stream s =
     (if rd_reps s = 0 then
        (case Base128StreamReader_next nd stream of
           Inl e \<Rightarrow> Inl e
         | Inr (reps, stream') \<Rightarrow>
             (case Base128StreamReader_next nd stream' of
                Inl e \<Rightarrow> Inl e
              | Inr (prev, stream'') \<Rightarrow>
                  Inr (prev, stream'', s\<lparr>rd_reps := reps - 1, rd_prev := prev\<rparr>)))
      else Inr (rd_prev s, stream, s\<lparr>rd_reps := rd_reps s - 1\<rparr>))"

subsection \<open>ZigZagStreamWriter and ZigZagStreamReader\<close>

definition zigzag_encode :: "bool \<Rightarrow> 'a::len word \<Rightarrow> 'a word" where
  "zigzag_encode sg v = push_bit 1 v XOR shr sg (LENGTH('a) - 1) v"

definition zigzag_decode :: "bool \<Rightarrow> 'a::len word \<Rightarrow> 'a word" where
  "zigzag_decode sg n = shr sg 1 n XOR (- (n AND 1))"

definition ZigZagStreamWriter_tput ::
  "(bool \<Rightarrow> Base128StreamWriter \<Rightarrow> 's \<Rightarrow> 'a::len word list
      \<Rightarrow> error + (bool \<times> Base128StreamWriter \<times> 's))
     \<Rightarrow> bool \<Rightarrow> bool \<Rightarrow> Base128StreamWriter \<Rightarrow> 's \<Rightarrow> 'a word list
     \<Rightarrow> error + (bool \<times> Base128StreamWriter \<times> 's)" where
  "ZigZagStreamWriter_tput inner_tput sg nd stream s iter =
     (if \<not> nd \<and> \<not> length iter < 1000 then Inl AssertionFailed
      else inner_tput nd stream s (map (zigzag_encode sg) iter))"

definition ZigZagStreamWriter_put ::
  "(Base128StreamWriter \<Rightarrow> 's \<Rightarrow> 'a::len word \<Rightarrow> bool \<times> Base128StreamWriter \<times> 's)
     \<Rightarrow> bool \<Rightarrow> Base128StreamWriter \<Rightarrow> 's \<Rightarrow> 'a word
     \<Rightarrow> bool \<times> Base128StreamWriter \<times> 's" where
  "ZigZagStreamWriter_put inner_put sg stream s v = inner_put stream s (zigzag_encode sg v)"

definition ZigZagStreamReader_next ::
  "(bool \<Rightarrow> Base128StreamReader \<Rightarrow> 's \<Rightarrow> error + ('a::len word \<times> Base128StreamReader \<times> 's))
     \<Rightarrow> bool \<Rightarrow> bool \<Rightarrow> Base128StreamReader \<Rightarrow> 's
     \<Rightarrow> error + ('a word \<times> Base128StreamReader \<times> 's)" where
  "ZigZagStreamReader_next inner_next sg nd stream s =
     (case inner_next nd stream s of
        Inl e \<Rightarrow> Inl e
      | Inr (n, stream', s') \<Rightarrow> Inr (zigzag_decode sg n, stream', s'))"

subsection \<open>DeltaStreamWriter and DeltaStreamReader\<close>

record ('s, 'v) DeltaStreamWriter =
  dw_stream :: 's
  dw_prev :: 'v

text \<open>The loop of \<^verbatim>\<open>tput\<close>: the differences \<^verbatim>\<open>outbuf\<close> and the last \<^verbatim>\<open>prev_\<close>.\<close>

fun DeltaStreamWriter_tput_loop :: "'a::len word list \<Rightarrow> 'a word \<Rightarrow> 'a word list \<times> 'a word" where
  "DeltaStreamWriter_tput_loop [] prev = ([], prev)"
| "DeltaStreamWriter_tput_loop (v # vs) prev =
     (case DeltaStreamWriter_tput_loop vs v of (outbuf, prev') \<Rightarrow> ((v - prev) # outbuf, prev'))"

definition DeltaStreamWriter_tput ::
  "(bool \<Rightarrow> Base128StreamWriter \<Rightarrow> 's \<Rightarrow> 'a::len word list
      \<Rightarrow> error + (bool \<times> Base128StreamWriter \<times> 's))
     \<Rightarrow> bool \<Rightarrow> Base128StreamWriter \<Rightarrow> ('s, 'a word) DeltaStreamWriter \<Rightarrow> 'a word list
     \<Rightarrow> error + (bool \<times> Base128StreamWriter \<times> ('s, 'a word) DeltaStreamWriter)" where
  "DeltaStreamWriter_tput inner_tput nd stream d iter =
     (if \<not> nd \<and> \<not> length iter < 1000 then Inl AssertionFailed
      else case DeltaStreamWriter_tput_loop iter (dw_prev d) of
             (outbuf, prev') \<Rightarrow>
               (case inner_tput nd stream (dw_stream d) outbuf of
                  Inl e \<Rightarrow> Inl e
                | Inr (ok, stream', s') \<Rightarrow>
                    Inr (ok, stream', d\<lparr>dw_stream := s', dw_prev := prev'\<rparr>)))"

definition DeltaStreamWriter_put ::
  "(Base128StreamWriter \<Rightarrow> 's \<Rightarrow> 'a::len word \<Rightarrow> bool \<times> Base128StreamWriter \<times> 's)
     \<Rightarrow> Base128StreamWriter \<Rightarrow> ('s, 'a word) DeltaStreamWriter \<Rightarrow> 'a word
     \<Rightarrow> bool \<times> Base128StreamWriter \<times> ('s, 'a word) DeltaStreamWriter" where
  "DeltaStreamWriter_put inner_put stream d v =
     (case inner_put stream (dw_stream d) (v - dw_prev d) of
        (result, stream', s') \<Rightarrow> (result, stream', d\<lparr>dw_stream := s', dw_prev := v\<rparr>))"

record ('s, 'v) DeltaStreamReader =
  dr_stream :: 's
  dr_prev :: 'v

definition DeltaStreamReader_next ::
  "(bool \<Rightarrow> Base128StreamReader \<Rightarrow> 's \<Rightarrow> error + ('a::len word \<times> Base128StreamReader \<times> 's))
     \<Rightarrow> bool \<Rightarrow> Base128StreamReader \<Rightarrow> ('s, 'a word) DeltaStreamReader
     \<Rightarrow> error + ('a word \<times> Base128StreamReader \<times> ('s, 'a word) DeltaStreamReader)" where
  "DeltaStreamReader_next inner_next nd stream d =
     (case inner_next nd stream (dr_stream d) of
        Inl e \<Rightarrow> Inl e
      | Inr (delta, stream', s') \<Rightarrow>
          (let v = dr_prev d + delta
           in Inr (v, stream', d\<lparr>dr_stream := s', dr_prev := v\<rparr>)))"

subsection \<open>The stacks\<close>

text \<open>\<^verbatim>\<open>DeltaRLEWriter\<close> and \<^verbatim>\<open>DeltaRLEReader\<close>: u64, Delta, RLE, Base128.\<close>

type_synonym DeltaRLEWriter = "(64 word RLEStreamWriter, 64 word) DeltaStreamWriter"

definition DeltaRLEWriter_new :: "Base128StreamWriter \<Rightarrow> DeltaRLEWriter" where
  "DeltaRLEWriter_new stream = \<lparr>dw_stream = RLEStreamWriter_new stream, dw_prev = 0\<rparr>"

definition DeltaRLEWriter_tput ::
  "bool \<Rightarrow> Base128StreamWriter \<Rightarrow> DeltaRLEWriter \<Rightarrow> u64 list
     \<Rightarrow> error + (bool \<times> Base128StreamWriter \<times> DeltaRLEWriter)" where
  "DeltaRLEWriter_tput = DeltaStreamWriter_tput (RLEStreamWriter_tput False)"



text \<open>\<^verbatim>\<open>ZDeltaRLEWriter\<close> and \<^verbatim>\<open>ZDeltaRLEReader\<close>: i64, Delta, ZigZag, RLE, Base128.\<close>

type_synonym ZDeltaRLEWriter = "(64 word RLEStreamWriter, 64 word) DeltaStreamWriter"
type_synonym ZDeltaRLEReader = "(64 word RLEStreamReader, 64 word) DeltaStreamReader"

definition ZDeltaRLEWriter_tput ::
  "bool \<Rightarrow> Base128StreamWriter \<Rightarrow> ZDeltaRLEWriter \<Rightarrow> i64 list
     \<Rightarrow> error + (bool \<times> Base128StreamWriter \<times> ZDeltaRLEWriter)" where
  "ZDeltaRLEWriter_tput =
     DeltaStreamWriter_tput (ZigZagStreamWriter_tput (RLEStreamWriter_tput True) True)"

definition ZDeltaRLEWriter_put ::
  "Base128StreamWriter \<Rightarrow> ZDeltaRLEWriter \<Rightarrow> i64
     \<Rightarrow> bool \<times> Base128StreamWriter \<times> ZDeltaRLEWriter" where
  "ZDeltaRLEWriter_put =
     DeltaStreamWriter_put (ZigZagStreamWriter_put (RLEStreamWriter_put True) True)"

definition ZDeltaRLEReader_next ::
  "bool \<Rightarrow> Base128StreamReader \<Rightarrow> ZDeltaRLEReader
     \<Rightarrow> error + (i64 \<times> Base128StreamReader \<times> ZDeltaRLEReader)" where
  "ZDeltaRLEReader_next =
     DeltaStreamReader_next (ZigZagStreamReader_next RLEStreamReader_next True)"


section \<open>Successive calls\<close>



fun RLEStreamReader_nexts ::
  "bool \<Rightarrow> nat \<Rightarrow> Base128StreamReader \<Rightarrow> 'a::len word RLEStreamReader
     \<Rightarrow> error + ('a word list \<times> Base128StreamReader \<times> 'a word RLEStreamReader)" where
  "RLEStreamReader_nexts nd 0 stream s = Inr ([], stream, s)"
| "RLEStreamReader_nexts nd (Suc n) stream s =
     (case RLEStreamReader_next nd stream s of
        Inl e \<Rightarrow> Inl e
      | Inr (v, stream', s') \<Rightarrow>
          (case RLEStreamReader_nexts nd n stream' s' of
             Inl e \<Rightarrow> Inl e
           | Inr (vs, stream'', s'') \<Rightarrow> Inr (v # vs, stream'', s'')))"


section \<open>Auxiliary notions for the proofs\<close>

text \<open>
  The bytes of the base-128 encoding of a number, least significant group first. It is used
  to state what the loops above compute; it is not part of the program.
\<close>

fun varint_bytes :: "nat \<Rightarrow> byte list" where
  "varint_bytes n = (if n < 128 then [of_nat n]
                     else (of_nat (n mod 128) OR 0x80) # varint_bytes (n div 128))"

declare varint_bytes.simps [simp del]


text \<open>
  A list of (repeat-count, value) pairs as \<^verbatim>\<open>RLEStreamWriter\<close> hands it to the byte stream,
  the sequence it stands for, and the pairs being well formed (an even number of entries,
  no count zero); \<open>varints\<close> is the concatenation of the encodings of a list of values;
  \<open>rle_outbuf\<close> is the final \<^verbatim>\<open>outbuf\<close> of \<^verbatim>\<open>RLEStreamWriter::tput\<close>; \<open>undelta\<close> are the
  running sums a delta reader forms; \<open>wf_writer\<close> says that the cursor and the end of a
  writer lie inside its memory; \<open>rd_holds r bs\<close> says that the bytes \<open>bs\<close> lie at the
  cursor of the reader \<open>r\<close>, before its end.
\<close>

fun rle_expand :: "'a::len word list \<Rightarrow> 'a word list" where
  "rle_expand (c # v # ps) = replicate (unat c) v @ rle_expand ps"
| "rle_expand ps = []"

fun rle_ok :: "'a::len word list \<Rightarrow> bool" where
  "rle_ok (c # v # ps) = (c \<noteq> 0 \<and> rle_ok ps)"
| "rle_ok [] = True"
| "rle_ok [c] = False"

definition varints :: "'a::len word list \<Rightarrow> byte list" where
  "varints xs = concat (map (\<lambda>x. varint_bytes (unat x)) xs)"

definition rle_outbuf :: "'a::len word \<Rightarrow> 'a word \<Rightarrow> 'a word list \<Rightarrow> 'a word list" where
  "rle_outbuf prev reps xs =
     (case RLEStreamWriter_tput_loop xs prev reps [] of
        (out, prev', reps') \<Rightarrow>
          if length out < length xs * 2 then out @ [reps', prev'] else out)"

fun undelta :: "'a::len word \<Rightarrow> 'a word list \<Rightarrow> 'a word list" where
  "undelta p [] = []"
| "undelta p (d # ds) = (p + d) # undelta (p + d) ds"



declare Base128Int_put_loop.simps [simp del] Base128Int_get_loop.simps [simp del]


section \<open>Lemmas on the base-128 encoding\<close>

lemma varint_bytes_nonempty: "varint_bytes n \<noteq> []"
  by (subst varint_bytes.simps) simp

lemma length_varint_bytes_pos: "0 < length (varint_bytes n)"
  using varint_bytes_nonempty by blast

lemma low7_unat: "unat ((v :: 'a::len word) AND 0x7F) = unat v mod 128"
proof -
  have "v AND 0x7F = take_bit 7 v" by (simp add: take_bit_eq_mask mask_eq_exp_minus_1)
  then have "unat (v AND 0x7F) = take_bit 7 (unat v)"
    by (simp only: unsigned_take_bit_eq)
  then show ?thesis by (simp add: take_bit_eq_mod)
qed

lemma low7_ucast: "(ucast ((v :: 'a::len word) AND 0x7F) :: byte) = of_nat (unat v mod 128)"
  by (metis low7_unat of_nat_unat)

lemma drop7_unat: "unat (drop_bit 7 (v :: 'a::len word)) = unat v div 128"
proof -
  have "unat (drop_bit 7 v) = drop_bit 7 (unat v)" by (rule unat_drop_bit_eq)
  then show ?thesis by (simp add: drop_bit_eq_div)
qed

lemma drop7_zero_iff: "drop_bit 7 (v :: 'a::len word) = 0 \<longleftrightarrow> unat v < 128"
proof -
  have "drop_bit 7 v = 0 \<longleftrightarrow> unat (drop_bit 7 v) = 0" by (simp add: unat_eq_0)
  also have "\<dots> \<longleftrightarrow> unat v < 128" by (simp only: drop7_unat) (simp add: div_eq_0_iff)
  finally show ?thesis .
qed

lemma put_loop_unsigned:
  "p + length (varint_bytes (unat v)) \<le> fin \<Longrightarrow> fin \<le> length m \<Longrightarrow>
   Base128Int_put_loop False (v :: 'a::len word) m bgn fin p =
     (take p m @ varint_bytes (unat v) @ drop (p + length (varint_bytes (unat v))) m,
      p + length (varint_bytes (unat v)))"
proof (induction "unat v" arbitrary: v m p rule: varint_bytes.induct)
  case (1 v m p)
  have pos: "0 < length (varint_bytes (unat v))" by (rule length_varint_bytes_pos)
  with "1.prems" have plt: "p < fin" "p < length m" by linarith+
  show ?case
  proof (cases "unat v < 128")
    case True
    then have vb: "varint_bytes (unat v) = [of_nat (unat v)]"
      by (subst varint_bytes.simps) simp
    from True have z: "drop_bit 7 v = 0" by (simp add: drop7_zero_iff)
    have b: "(ucast (v AND 0x7F) :: byte) = of_nat (unat v)"
      using True by (simp add: low7_ucast)
    show ?thesis
      using plt z b vb
      by (subst Base128Int_put_loop.simps) (simp add: shr_def Let_def upd_conv_take_nth_drop)
  next
    case False
    then have vb: "varint_bytes (unat v) =
        (of_nat (unat v mod 128) OR 0x80) # varint_bytes (unat v div 128)"
      by (subst varint_bytes.simps) simp
    from False have nz: "drop_bit 7 v \<noteq> 0" by (simp add: drop7_zero_iff)
    have u: "unat v div 128 = unat (drop_bit 7 v)" by (simp only: drop7_unat)
    let ?m' = "m[p := (ucast (v AND 0x7F) :: byte) OR 0x80]"
    have IH: "Base128Int_put_loop False (drop_bit 7 v) ?m' bgn fin (Suc p) =
       (take (Suc p) ?m' @ varint_bytes (unat (drop_bit 7 v)) @
          drop (Suc p + length (varint_bytes (unat (drop_bit 7 v)))) ?m',
        Suc p + length (varint_bytes (unat (drop_bit 7 v))))"
      using "1.prems" vb u False
      by (intro "1.hyps") auto
    have t: "take (Suc p) ?m' = take p m @ [of_nat (unat v mod 128) OR 0x80]"
      using plt by (simp add: take_Suc_conv_app_nth low7_ucast)
    have d: "\<And>k. drop (Suc p + k) ?m' = drop (Suc p + k) m"
      by simp
    show ?thesis
      using plt nz
      apply (subst Base128Int_put_loop.simps)
      apply (simp add: shr_def Let_def IH t d del: Base128Int_put_loop.simps)
      apply (simp add: vb u)
      done
  qed
qed

lemma put_loop_frame:
  "Base128Int_put_loop sg (v :: 'a::len word) m bgn fin p = (m', q) \<Longrightarrow>
   length m' = length m \<and> take p m' = take p m \<and> (q = bgn \<or> (p < q \<and> q \<le> fin))"
proof (induction sg v m bgn fin p arbitrary: m' q rule: Base128Int_put_loop.induct)
  case (1 sg val m bgn fin p)
  show ?case
  proof (cases "fin \<le> p")
    case True
    with "1.prems" show ?thesis by (simp add: Base128Int_put_loop.simps)
  next
    case False
    note nf = False
    show ?thesis
    proof (cases "shr sg 7 val = 0")
      case True
      with nf "1.prems" show ?thesis
        by (subst (asm) Base128Int_put_loop.simps) (auto simp: Let_def)
    next
      case False
      let ?m1 = "m[p := (ucast (val AND 0x7F) :: byte) OR 0x80]"
      from nf False "1.prems"
      have r: "Base128Int_put_loop sg (shr sg 7 val) ?m1 bgn fin (Suc p) = (m', q)"
        by (subst (asm) Base128Int_put_loop.simps) (simp add: Let_def)
      from "1.IH"[OF nf refl refl False r]
      have ih: "length m' = length ?m1" "take (Suc p) m' = take (Suc p) ?m1"
        "q = bgn \<or> (Suc p < q \<and> q \<le> fin)" by auto
      from ih(2) have "take p (take (Suc p) m') = take p (take (Suc p) ?m1)" by simp
      then have "take p m' = take p m" by (simp add: min_def)
      with ih show ?thesis by auto
    qed
  qed
qed

lemma signed_drop_bit_neg_nonzero:
  "sint (v :: 'a::len word) < 0 \<Longrightarrow> sint (signed_drop_bit n v) < 0"
  by (simp add: sint_signed_drop_bit_eq)

lemma put_loop_signed_negative:
  "sint (v :: 'a::len word) < 0 \<Longrightarrow> snd (Base128Int_put_loop True v m bgn fin p) = bgn"
proof (induction True v m bgn fin p rule: Base128Int_put_loop.induct)
  case (1 val m bgn fin p)
  have neg: "sint (shr True 7 val) < 0"
    using "1.prems" by (simp add: shr_def signed_drop_bit_neg_nonzero)
  then have nz: "shr True 7 val \<noteq> 0" by auto
  show ?case
  proof (cases "fin \<le> p")
    case True
    then show ?thesis by (simp add: Base128Int_put_loop.simps)
  next
    case False
    from "1.hyps"[OF False refl refl nz neg] False nz show ?thesis
      by (subst Base128Int_put_loop.simps) (simp add: Let_def)
  qed
qed

lemma put_loop_unsigned_short:
  "fin < p + length (varint_bytes (unat v)) \<Longrightarrow>
   snd (Base128Int_put_loop False (v :: 'a::len word) m bgn fin p) = bgn"
proof (induction "unat v" arbitrary: v m p rule: varint_bytes.induct)
  case (1 v m p)
  show ?case
  proof (cases "fin \<le> p")
    case True
    then show ?thesis by (simp add: Base128Int_put_loop.simps)
  next
    case False
    note nf = False
    show ?thesis
    proof (cases "unat v < 128")
      case True
      then have "varint_bytes (unat v) = [of_nat (unat v)]"
        by (subst varint_bytes.simps) simp
      with "1.prems" nf show ?thesis by simp
    next
      case False
      then have vb: "varint_bytes (unat v) =
          (of_nat (unat v mod 128) OR 0x80) # varint_bytes (unat v div 128)"
        by (subst varint_bytes.simps) simp
      from False have nz: "drop_bit 7 v \<noteq> 0" by (simp add: drop7_zero_iff)
      have u: "unat v div 128 = unat (drop_bit 7 v)" by (simp only: drop7_unat)
      have "snd (Base128Int_put_loop False (drop_bit 7 v)
               (m[p := (ucast (v AND 0x7F) :: byte) OR 0x80]) bgn fin (Suc p)) = bgn"
        using "1.prems" vb u False by (intro "1.hyps") auto
      with nf nz show ?thesis
        by (subst Base128Int_put_loop.simps) (simp add: shr_def Let_def)
    qed
  qed
qed

lemma b80: "(0x80 :: byte) = 2 ^ 7" by simp
lemma b7f: "(0x7F :: 'a::len word) = mask 7" by (simp add: mask_eq_exp_minus_1)

lemma not_bit7: "n < 128 \<Longrightarrow> \<not> bit (n::nat) 7"
  by (simp add: bit_iff_odd)

lemma bit128: "bit (128 :: byte) k \<longleftrightarrow> k = 7"
proof -
  have "bit (2 ^ 7 :: byte) k \<longleftrightarrow> k = 7"
    by (simp only: bit_exp_iff) auto
  then show ?thesis by simp
qed

lemma bit128_nat: "bit (128 :: nat) k \<longleftrightarrow> k = 7"
proof -
  have "bit (2 ^ 7 :: nat) k \<longleftrightarrow> k = 7"
    by (simp only: bit_exp_iff) auto
  then show ?thesis by simp
qed

lemma bit128_int: "bit (128 :: int) k \<longleftrightarrow> k = 7"
proof -
  have "bit (2 ^ 7 :: int) k \<longleftrightarrow> k = 7"
    by (simp only: bit_exp_iff) auto
  then show ?thesis by simp
qed

lemma byte_small_and80: "n < 128 \<Longrightarrow> (of_nat n :: byte) AND 0x80 = 0"
  by (rule bit_word_eqI) (auto simp: bit_and_iff bit128 bit128_nat bit128_int bit_of_nat_iff not_bit7)

lemma take_bit7_small: "n < 128 \<Longrightarrow> take_bit 7 (n::nat) = n"
  by (simp add: take_bit_nat_eq_self_iff)

lemma byte_small_and7f: "n < 128 \<Longrightarrow> (ucast ((of_nat n :: byte) AND 0x7F) :: 'a::len word) = of_nat n"
proof -
  assume a: "n < 128"
  have "(of_nat n :: byte) AND 0x7F = take_bit 7 (of_nat n)"
    unfolding b7f by (simp add: take_bit_eq_mask)
  also have "\<dots> = of_nat (take_bit 7 n)" by (simp add: of_nat_take_bit)
  also have "\<dots> = of_nat n" using a by (simp add: take_bit7_small)
  finally have e: "(of_nat n :: byte) AND 0x7F = of_nat n" .
  have "unat (of_nat n :: byte) = n" using a by (simp add: unat_of_nat take_bit_nat_eq_self_iff)
  then show ?thesis unfolding e by (metis of_nat_unat)
qed


lemma byte_cont_and7f: "(ucast (((of_nat (n mod 128) :: byte) OR 0x80) AND 0x7F) :: 'a::len word) = of_nat (n mod 128)"
proof -
  have "((of_nat (n mod 128) :: byte) OR 0x80) AND 0x7F = (of_nat (n mod 128) :: byte) AND 0x7F"
    unfolding b7f
    by (rule bit_word_eqI) (auto simp: bit_and_iff bit_or_iff bit128 bit128_nat bit128_int bit_mask_iff)
  then show ?thesis by (simp add: byte_small_and7f)
qed

lemma split7: "(of_nat n :: 'a::len word) = of_nat (n mod 128) OR push_bit 7 (of_nat (n div 128))"
proof -
  have "n = take_bit 7 n OR push_bit 7 (drop_bit 7 n)"
    apply (rule bit_eqI)
    apply (auto simp: bit_or_iff bit_take_bit_iff bit_push_bit_iff bit_drop_bit_eq)
    subgoal for k by (cases "k < 7") auto
    done
  then have "n = (n mod 128) OR push_bit 7 (n div 128)"
    by (simp add: take_bit_eq_mod drop_bit_eq_div)
  then have "(of_nat n :: 'a word) = of_nat ((n mod 128) OR push_bit 7 (n div 128))" by simp
  then show ?thesis by (simp add: of_nat_or_eq of_nat_push_bit)
qed

lemma get_loop_varint:
  "take (length (varint_bytes n)) (drop p m) = varint_bytes n \<Longrightarrow>
   p + length (varint_bytes n) \<le> fin \<Longrightarrow>
   c + 7 * length (varint_bytes n) < 2 ^ LENGTH('a) \<Longrightarrow>
   Base128Int_get_loop m bgn fin p (acc :: 'a::len word) (of_nat c) =
     Inr (p + length (varint_bytes n), Some (acc OR push_bit c (of_nat n)))"
proof (induction n arbitrary: p acc c rule: varint_bytes.induct)
  case (1 n p acc c)
  have pos: "0 < length (varint_bytes n)" by (rule length_varint_bytes_pos)
  with "1.prems" have plt: "p \<noteq> fin" by linarith
  have "length (take (length (varint_bytes n)) (drop p m)) = length (varint_bytes n)"
    using "1.prems"(1) by simp
  then have "length (varint_bytes n) \<le> length m - p" by simp
  with pos have plen: "p + length (varint_bytes n) \<le> length m" by linarith
  with pos have pm: "p < length m" by linarith
  then have pm': "\<not> length m \<le> p" by simp
  have hd: "m ! p = varint_bytes n ! 0"
  proof -
    have "varint_bytes n ! 0 = take (length (varint_bytes n)) (drop p m) ! 0"
      using "1.prems"(1) by simp
    also have "\<dots> = m ! p" using pos pm by simp
    finally show ?thesis by simp
  qed
  have k7: "c < 2 ^ LENGTH('a)" using "1.prems"(3) by linarith
  then have ucnt: "unat (of_nat c :: 'a word) = c"
    by (simp add: unat_of_nat take_bit_nat_eq_self_iff)
  show ?case
  proof (cases "n < 128")
    case True
    then have vb: "varint_bytes n = [of_nat n]"
      by (subst varint_bytes.simps) simp
    with hd have mp: "m ! p = of_nat n" by simp
    show ?thesis
      using plt pm' True
      by (subst Base128Int_get_loop.simps)
         (simp add: mp vb Let_def byte_small_and80 byte_small_and7f ucnt)
  next
    case False
    then have vb: "varint_bytes n = (of_nat (n mod 128) OR 0x80) # varint_bytes (n div 128)"
      by (subst varint_bytes.simps) simp
    with hd have mp: "m ! p = of_nat (n mod 128) OR 0x80" by simp
    have tl: "take (length (varint_bytes (n div 128))) (drop (Suc p) m) = varint_bytes (n div 128)"
    proof -
      have "take (Suc (length (varint_bytes (n div 128)))) (drop p m) =
            (of_nat (n mod 128) OR 0x80) # varint_bytes (n div 128)"
        using "1.prems"(1) vb by simp
      then have "tl (take (Suc (length (varint_bytes (n div 128)))) (drop p m)) =
            varint_bytes (n div 128)" by simp
      then show ?thesis by (simp add: tl_take drop_Suc tl_drop)
    qed
    have cnt: "(of_nat c :: 'a word) + 7 = of_nat (c + 7)" by simp
    have IH: "Base128Int_get_loop m bgn fin (Suc p)
          (acc OR push_bit c (of_nat (n mod 128))) (of_nat (c + 7)) =
        Inr (Suc p + length (varint_bytes (n div 128)),
         Some ((acc OR push_bit c (of_nat (n mod 128))) OR
               push_bit (c + 7) (of_nat (n div 128))))"
      using "1.prems" vb False tl by (intro "1.IH") auto
    have comb: "(acc OR push_bit c (of_nat (n mod 128))) OR
               push_bit (c + 7) (of_nat (n div 128)) = acc OR push_bit c (of_nat n)"
    proof -
      have "push_bit c (of_nat n :: 'a word) =
            push_bit c (of_nat (n mod 128)) OR
            push_bit c (push_bit 7 (of_nat (n div 128)))"
        by (subst split7) (simp add: push_bit_or del: push_bit_of_nat)
      also have "push_bit c (push_bit 7 (of_nat (n div 128) :: 'a word)) =
            push_bit (c + 7) (of_nat (n div 128))"
        by (simp add: push_bit_push_bit add.commute del: push_bit_of_nat)
      finally show ?thesis by (simp add: or.assoc del: push_bit_of_nat)
    qed
    show ?thesis
      using plt pm'
      apply (subst Base128Int_get_loop.simps)
      apply (simp only: mp byte_cont_and7f Let_def ucnt cnt IH comb)
      apply (simp add: vb del: push_bit_of_nat)
      done
  qed
qed

lemma bitlen_div2: "0 < x \<Longrightarrow> bitlen x = bitlen (x div 2) + 1"
  by (subst compute_bitlen) simp

lemma bitlen_div128: "128 \<le> x \<Longrightarrow> bitlen x = bitlen (x div 128) + 7"
proof -
  assume a: "128 \<le> x"
  have d: "\<And>y::int. y div 2 div 2 div 2 div 2 div 2 div 2 div 2 = y div 128"
    by (simp add: zdiv_zmult2_eq [symmetric])
  have "bitlen x = bitlen (x div 2) + 1" using a by (intro bitlen_div2) simp
  also have "bitlen (x div 2) = bitlen (x div 2 div 2) + 1" using a by (intro bitlen_div2) simp
  also have "bitlen (x div 2 div 2) = bitlen (x div 2 div 2 div 2) + 1"
    using a by (intro bitlen_div2) simp
  also have "bitlen (x div 2 div 2 div 2) = bitlen (x div 2 div 2 div 2 div 2) + 1"
    using a by (intro bitlen_div2) simp
  also have "bitlen (x div 2 div 2 div 2 div 2) = bitlen (x div 2 div 2 div 2 div 2 div 2) + 1"
    using a by (intro bitlen_div2) simp
  also have "bitlen (x div 2 div 2 div 2 div 2 div 2) =
      bitlen (x div 2 div 2 div 2 div 2 div 2 div 2) + 1"
    using a by (intro bitlen_div2) simp
  also have "bitlen (x div 2 div 2 div 2 div 2 div 2 div 2) =
      bitlen (x div 2 div 2 div 2 div 2 div 2 div 2 div 2) + 1"
    using a by (intro bitlen_div2) simp
  finally show ?thesis by (simp only: d)
qed

lemma bitlen_small: "0 < x \<Longrightarrow> x < 128 \<Longrightarrow> 1 \<le> bitlen x \<and> bitlen x \<le> 7"
proof -
  assume a: "0 < x" "x < 128"
  have "bitlen x \<le> 7" using a by (simp add: bitlen_le_iff_power)
  moreover have "bitlen x \<noteq> 0" using a by (simp add: bitlen_eq_zero_iff)
  moreover have "0 \<le> bitlen x" by (rule bitlen_nonneg)
  ultimately show ?thesis by linarith
qed

lemma max_div7_step: "1 \<le> (y::int) \<Longrightarrow> 1 + max 1 ((y + 6) div 7) = max 1 ((y + 7 + 6) div 7)"
  by (simp add: max_def) linarith

lemma ceiling_div7: "\<lceil>real_of_int b / 7\<rceil> = (b + 6) div 7"
proof -
  have "\<lceil>real_of_int b / real_of_int 7\<rceil> = - (- b div 7)" by (rule ceiling_divide_eq_div)
  moreover have "- (- b div 7) = (b + 6) div 7" by linarith
  ultimately show ?thesis by simp
qed

lemma length_varint_bytes:
  "int (length (varint_bytes n)) = max 1 ((bitlen (int n) + 6) div 7)"
proof (induction n rule: varint_bytes.induct)
  case (1 n)
  show ?case
  proof (cases "n < 128")
    case True
    then have vb: "varint_bytes n = [of_nat n]" by (subst varint_bytes.simps) simp
    show ?thesis
    proof (cases "n = 0")
      case True
      with vb show ?thesis by simp
    next
      case False
      with True have "1 \<le> bitlen (int n) \<and> bitlen (int n) \<le> 7"
        by (intro bitlen_small) auto
      then have "(bitlen (int n) + 6) div 7 = 1" by linarith
      with vb show ?thesis by simp
    qed
  next
    case False
    then have vb: "varint_bytes n = (of_nat (n mod 128) OR 0x80) # varint_bytes (n div 128)"
      by (subst varint_bytes.simps) simp
    from False have b: "bitlen (int n) = bitlen (int (n div 128)) + 7"
      using bitlen_div128[of "int n"] by (simp add: zdiv_int)
    have "0 < int (n div 128)" using False by (simp add: div_greater_zero_iff)
    then have "bitlen (int (n div 128)) \<noteq> 0" by (simp only: bitlen_eq_zero_iff)
    with bitlen_nonneg[of "int (n div 128)"] have p: "1 \<le> bitlen (int (n div 128))" by linarith
    have "int (length (varint_bytes n)) = 1 + int (length (varint_bytes (n div 128)))"
      by (simp add: vb)
    also have "\<dots> = 1 + max 1 ((bitlen (int (n div 128)) + 6) div 7)"
      using "1.IH"[OF False] by simp
    also have "\<dots> = max 1 ((bitlen (int n) + 6) div 7)"
      using max_div7_step[OF p] by (simp only: b)
    finally show ?thesis .
  qed
qed

lemma length_varint_bytes_ceiling:
  "int (length (varint_bytes n)) = max 1 \<lceil>real_of_int (bitlen (int n)) / 7\<rceil>"
proof -
  have "\<lceil>real_of_int (bitlen (int n)) / 7\<rceil> = (bitlen (int n) + 6) div 7"
    by (rule ceiling_div7)
  then show ?thesis by (simp add: length_varint_bytes)
qed

lemma length_varint_bytes_u64: "length (varint_bytes (unat (v :: 64 word))) \<le> 10"
proof -
  have "uint v < 2 ^ 64" using uint_lt2p[of v] by simp
  then have "bitlen (int (unat v)) \<le> 64"
    by (simp add: bitlen_le_iff_power)
  then have "max 1 ((bitlen (int (unat v)) + 6) div 7) \<le> 10" by simp
  then show ?thesis using length_varint_bytes[of "unat v"] by linarith
qed

lemma length_splice: "p + length bs \<le> length m \<Longrightarrow> length (splice m p bs) = length m"
  by (simp add: splice_def)

lemma take_splice: "p \<le> length m \<Longrightarrow> take p (splice m p bs) = take p m"
  by (simp add: splice_def)

lemma take_splice_end:
  "p \<le> length m \<Longrightarrow> take (p + length bs) (splice m p bs) = take p m @ bs"
  by (simp add: splice_def)

lemma take_drop_splice:
  "p \<le> length m \<Longrightarrow> take (length bs) (drop p (splice m p bs)) = bs"
  by (simp add: splice_def)

lemma put_unsigned_ok:
  assumes "w_pos w + length (varint_bytes (unat v)) \<le> w_end w" "w_end w \<le> length (w_mem w)"
  shows "Base128StreamWriter_put False w (v :: 'a::len word) =
    (True, w\<lparr>w_mem := splice (w_mem w) (w_pos w) (varint_bytes (unat v)),
              w_pos := w_pos w + length (varint_bytes (unat v))\<rparr>)"
proof -
  have pos: "0 < length (varint_bytes (unat v))" by (rule length_varint_bytes_pos)
  with assms have lt: "w_pos w < w_end w" by linarith
  show ?thesis
    using lt pos put_loop_unsigned[OF assms, of "w_pos w"]
    by (simp add: Base128StreamWriter_put_def Base128Int_put_def splice_def)
qed

lemma put_unsigned_fail:
  assumes "w_end w < w_pos w + length (varint_bytes (unat v))"
  shows "fst (Base128StreamWriter_put False w (v :: 'a::len word)) = False"
proof (cases "w_end w \<le> w_pos w")
  case True
  then show ?thesis by (simp add: Base128StreamWriter_put_def Base128Int_put_def)
next
  case False
  have "snd (Base128Int_put_loop False v (w_mem w) (w_pos w) (w_end w) (w_pos w)) = w_pos w"
    using assms by (rule put_loop_unsigned_short)
  with False show ?thesis
    by (cases "Base128Int_put_loop False v (w_mem w) (w_pos w) (w_end w) (w_pos w)")
       (simp add: Base128StreamWriter_put_def Base128Int_put_def)
qed

lemma put_frame:
  assumes "Base128StreamWriter_put sg w (v :: 'a::len word) = (ok, w')"
  shows "length (w_mem w') = length (w_mem w) \<and> take (w_pos w) (w_mem w') = take (w_pos w) (w_mem w)
     \<and> w_end w' = w_end w \<and> w_begin w' = w_begin w
     \<and> (if ok then w_pos w < w_pos w' \<and> w_pos w' \<le> w_end w else w_pos w' = w_pos w)"
proof (cases "w_end w \<le> w_pos w")
  case True
  with assms show ?thesis
    by (auto simp: Base128StreamWriter_put_def Base128Int_put_def)
next
  case False
  obtain m' q where r: "Base128Int_put_loop sg v (w_mem w) (w_pos w) (w_end w) (w_pos w) = (m', q)"
    by (cases "Base128Int_put_loop sg v (w_mem w) (w_pos w) (w_end w) (w_pos w)")
  from put_loop_frame[OF r] False assms r show ?thesis
    by (auto simp: Base128StreamWriter_put_def Base128Int_put_def split: if_splits)
qed

lemma next_varint:
  assumes "take (length (varint_bytes (unat v))) (drop (r_pos r) (r_mem r)) = varint_bytes (unat v)"
    and "r_pos r + length (varint_bytes (unat v)) \<le> r_end r"
    and "7 * length (varint_bytes (unat v)) < 2 ^ LENGTH('a)"
  shows "Base128StreamReader_next nd r =
     Inr (v :: 'a::len word, r\<lparr>r_pos := r_pos r + length (varint_bytes (unat v))\<rparr>)"
proof -
  have pos: "0 < length (varint_bytes (unat v))" by (rule length_varint_bytes_pos)
  have g: "Base128Int_get_loop (r_mem r) (r_pos r) (r_end r) (r_pos r) (0 :: 'a word) (of_nat 0) =
     Inr (r_pos r + length (varint_bytes (unat v)), Some (0 OR push_bit 0 (of_nat (unat v))))"
    using assms by (intro get_loop_varint) auto
  from assms(2) pos have lt: "r_pos r < r_end r" by linarith
  from g lt pos show ?thesis
    by (simp add: Base128StreamReader_next_def Base128Int_get_def)
qed

lemma next_varint_u64:
  assumes "take (length (varint_bytes (unat v))) (drop (r_pos r) (r_mem r)) = varint_bytes (unat v)"
    and "r_pos r + length (varint_bytes (unat v)) \<le> r_end r"
  shows "Base128StreamReader_next nd r =
     Inr (v :: 64 word, r\<lparr>r_pos := r_pos r + length (varint_bytes (unat v))\<rparr>)"
proof -
  have "7 * length (varint_bytes (unat v)) < 2 ^ LENGTH(64)"
    using length_varint_bytes_u64[of v] by simp
  with assms show ?thesis by (rule next_varint)
qed


section \<open>Lemmas on the run-length and delta filters\<close>

lemma rle_expand_append:
  "rle_ok ps \<Longrightarrow> rle_expand (ps @ qs) = rle_expand ps @ rle_expand qs"
  by (induction ps rule: rle_ok.induct) auto

lemma rle_ok_append: "rle_ok ps \<Longrightarrow> rle_ok (ps @ qs) = rle_ok qs"
  by (induction ps rule: rle_ok.induct) auto

lemma unat_word_one: "unat (0 + 1 :: 'a::len word) = 1"
  by simp

lemma unat_word_succ: "unat (r :: 'a::len word) + 1 < 2 ^ LENGTH('a) \<Longrightarrow> unat (r + 1) = unat r + 1"
  by (simp add: unat_word_ariths take_bit_nat_eq_self_iff unsigned_of_nat)

lemma word_succ_nonzero: "unat (r :: 'a::len word) + 1 < 2 ^ LENGTH('a) \<Longrightarrow> r + 1 \<noteq> 0"
  using unat_word_succ[of r] by (metis add_is_0 unat_eq_0 zero_neq_one)

lemma rle_loop_expand:
  "unat reps + length xs < 2 ^ LENGTH('a) \<Longrightarrow> rle_ok acc \<Longrightarrow>
   RLEStreamWriter_tput_loop xs prev (reps :: 'a::len word) acc = (out, prev', reps') \<Longrightarrow>
   rle_ok out \<and>
   rle_expand (out @ [reps', prev']) = rle_expand acc @ replicate (unat reps) prev @ xs \<and>
   (reps \<noteq> 0 \<or> xs \<noteq> [] \<longrightarrow> reps' \<noteq> 0) \<and>
   length out \<le> length acc + 2 * length xs \<and>
   (reps = 0 \<and> xs \<noteq> [] \<longrightarrow> length out + 2 \<le> length acc + 2 * length xs)"
proof (induction xs arbitrary: prev reps acc)
  case Nil
  then show ?case by (simp add: rle_expand_append)
next
  case (Cons v vs)
  show ?case
  proof (cases "v = prev")
    case True
    from Cons.prems(1) have b: "unat reps + 1 < 2 ^ LENGTH('a)" by simp
    have u: "unat (reps + 1) = unat reps + 1" using b by (rule unat_word_succ)
    have nz: "reps + 1 \<noteq> 0" using b by (rule word_succ_nonzero)
    from Cons.prems(3) True
    have r: "RLEStreamWriter_tput_loop vs prev (reps + 1) acc = (out, prev', reps')" by simp
    have "unat (reps + 1) + length vs < 2 ^ LENGTH('a)" using Cons.prems(1) u by simp
    from Cons.IH[OF this Cons.prems(2) r] nz u True show ?thesis
      by (auto simp: replicate_append_same)
  next
    case False
    let ?acc' = "if reps \<noteq> 0 then acc @ [reps, prev] else acc"
    from Cons.prems(3) False
    have r: "RLEStreamWriter_tput_loop vs v (0 + 1) ?acc' = (out, prev', reps')" by simp
    have ok': "rle_ok ?acc'" using Cons.prems(2) by (simp add: rle_ok_append)
    have e': "rle_expand ?acc' = rle_expand acc @ replicate (unat reps) prev"
      using Cons.prems(2) by (simp add: rle_expand_append unat_eq_0)
    have l': "length ?acc' \<le> length acc + 2" "reps = 0 \<longrightarrow> length ?acc' = length acc" by auto
    have "unat (0 + 1 :: 'a word) + length vs < 2 ^ LENGTH('a)"
      using Cons.prems(1) by simp
    from Cons.IH[OF this ok' r] e' l' show ?thesis
      by (auto simp del: rle_expand.simps)
  qed
qed

lemma splice_splice:
  "p + length a \<le> length m \<Longrightarrow>
   splice (splice m p a) (p + length a) b = splice m p (a @ b)"
proof -
  assume a: "p + length a \<le> length m"
  have "length m \<le> p \<Longrightarrow> length a = 0" using a by linarith
  then show ?thesis using a by (auto simp: splice_def min_def ac_simps)
qed

lemma splice_Nil: "splice m p [] = m"
  by (simp add: splice_def)

lemma varints_Nil: "varints [] = []"
  by (simp add: varints_def)

lemma varints_Cons: "varints (x # xs) = varint_bytes (unat x) @ varints xs"
  by (simp add: varints_def)


lemma put_unsigned_cases:
  assumes "w_end w \<le> length (w_mem w)"
    and "Base128StreamWriter_put False w (v :: 'a::len word) = (ok, w')"
  shows "ok = (w_pos w + length (varint_bytes (unat v)) \<le> w_end w) \<and>
    (ok \<longrightarrow> w' = w\<lparr>w_mem := splice (w_mem w) (w_pos w) (varint_bytes (unat v)),
                     w_pos := w_pos w + length (varint_bytes (unat v))\<rparr>)"
proof (cases "w_pos w + length (varint_bytes (unat v)) \<le> w_end w")
  case True
  from put_unsigned_ok[OF True assms(1)] assms(2) True show ?thesis by simp
next
  case False
  then have "w_end w < w_pos w + length (varint_bytes (unat v))" by simp
  from put_unsigned_fail[OF this] assms(2) False show ?thesis by simp
qed

lemma tput_loop_unsigned_True:
  "w_end w \<le> length (w_mem w) \<Longrightarrow> w_pos w \<le> w_end w \<Longrightarrow>
   Base128StreamWriter_tput_loop False w (xs :: 'a::len word list) = (True, w') \<Longrightarrow>
   w_pos w + length (varints xs) \<le> w_end w \<and>
   w' = w\<lparr>w_mem := splice (w_mem w) (w_pos w) (varints xs),
          w_pos := w_pos w + length (varints xs)\<rparr>"
proof (induction xs arbitrary: w)
  case Nil
  then show ?case by (simp add: varints_Nil splice_Nil)
next
  case (Cons x xs)
  obtain ok w1 where p: "Base128StreamWriter_put False w x = (ok, w1)"
    by (cases "Base128StreamWriter_put False w x")
  with Cons.prems(3) have ok: "ok" by (cases ok) auto
  from put_unsigned_cases[OF Cons.prems(1) p] ok
  have fits: "w_pos w + length (varint_bytes (unat x)) \<le> w_end w"
    and w1: "w1 = w\<lparr>w_mem := splice (w_mem w) (w_pos w) (varint_bytes (unat x)),
                     w_pos := w_pos w + length (varint_bytes (unat x))\<rparr>" by auto
  from fits Cons.prems(1) have fm: "w_pos w + length (varint_bytes (unat x)) \<le> length (w_mem w)"
    by linarith
  have e1: "w_end w1 \<le> length (w_mem w1)"
    using Cons.prems(1) fm by (simp add: w1 length_splice)
  have p1: "w_pos w1 \<le> w_end w1" using fits by (simp add: w1)
  from Cons.prems(3) p ok have r: "Base128StreamWriter_tput_loop False w1 xs = (True, w')" by simp
  from Cons.IH[OF e1 p1 r] fm show ?case
    by (simp add: w1 varints_Cons splice_splice add.assoc)
qed

lemma tput_loop_unsigned_fits:
  "w_end w \<le> length (w_mem w) \<Longrightarrow> w_pos w + length (varints xs) \<le> w_end w \<Longrightarrow>
   fst (Base128StreamWriter_tput_loop False w (xs :: 'a::len word list)) = True"
proof (induction xs arbitrary: w)
  case Nil
  then show ?case by simp
next
  case (Cons x xs)
  from Cons.prems(2)
  have fits: "w_pos w + length (varint_bytes (unat x)) \<le> w_end w" by (simp add: varints_Cons)
  note p = put_unsigned_ok[OF fits Cons.prems(1)]
  let ?w1 = "w\<lparr>w_mem := splice (w_mem w) (w_pos w) (varint_bytes (unat x)),
                     w_pos := w_pos w + length (varint_bytes (unat x))\<rparr>"
  from fits Cons.prems(1) have fm: "w_pos w + length (varint_bytes (unat x)) \<le> length (w_mem w)"
    by linarith
  have e1: "w_end ?w1 \<le> length (w_mem ?w1)"
    using Cons.prems(1) fm by (simp add: length_splice)
  have f1: "w_pos ?w1 + length (varints xs) \<le> w_end ?w1"
    using Cons.prems(2) by (simp add: varints_Cons add.assoc)
  from Cons.IH[OF e1 f1] p show ?case by simp
qed

lemma tput_loop_frame:
  "Base128StreamWriter_tput_loop sg w (xs :: 'a::len word list) = (ok, w') \<Longrightarrow>
   length (w_mem w') = length (w_mem w) \<and> take (w_pos w) (w_mem w') = take (w_pos w) (w_mem w)
   \<and> w_end w' = w_end w \<and> w_begin w' = w_begin w \<and> w_pos w \<le> w_pos w'"
proof (induction xs arbitrary: w)
  case Nil
  then show ?case by simp
next
  case (Cons x xs)
  obtain ok1 w1 where p: "Base128StreamWriter_put sg w x = (ok1, w1)"
    by (cases "Base128StreamWriter_put sg w x")
  note f = put_frame[OF p]
  show ?case
  proof (cases ok1)
    case False
    with Cons.prems p f show ?thesis by auto
  next
    case True
    with Cons.prems p have r: "Base128StreamWriter_tput_loop sg w1 xs = (ok, w')" by simp
    from Cons.IH[OF r] have ih: "length (w_mem w') = length (w_mem w1)"
      "take (w_pos w1) (w_mem w') = take (w_pos w1) (w_mem w1)"
      "w_end w' = w_end w1" "w_begin w' = w_begin w1" "w_pos w1 \<le> w_pos w'" by auto
    from f True have le: "w_pos w \<le> w_pos w1" by simp
    from ih(2) have "take (w_pos w) (take (w_pos w1) (w_mem w')) =
        take (w_pos w) (take (w_pos w1) (w_mem w1))" by simp
    with le have "take (w_pos w) (w_mem w') = take (w_pos w) (w_mem w1)" by (simp add: min_def)
    with f ih le show ?thesis by auto
  qed
qed

lemma tput_frame:
  assumes "Base128StreamWriter_tput sg w (xs :: 'a::len word list) = (ok, w')"
  shows "length (w_mem w') = length (w_mem w) \<and> take (w_pos w) (w_mem w') = take (w_pos w) (w_mem w)
   \<and> w_end w' = w_end w \<and> w_begin w' = w_begin w \<and> w_pos w \<le> w_pos w'
   \<and> (\<not> ok \<longrightarrow> w_pos w' = w_pos w)"
proof -
  obtain ok1 w1 where l: "Base128StreamWriter_tput_loop sg w xs = (ok1, w1)"
    by (cases "Base128StreamWriter_tput_loop sg w xs")
  from tput_loop_frame[OF l] assms l show ?thesis
    by (cases ok1) (auto simp: Base128StreamWriter_tput_def Base128StreamWriter_commit_def)
qed

lemma tput_unsigned_True:
  assumes "w_end w \<le> length (w_mem w)" and "w_pos w \<le> w_end w"
    and "Base128StreamWriter_tput False w (xs :: 'a::len word list) = (True, w')"
  shows "w_pos w + length (varints xs) \<le> w_end w \<and>
   w' = w\<lparr>w_mem := splice (w_mem w) (w_pos w) (varints xs),
          w_pos := w_pos w + length (varints xs)\<rparr>"
proof -
  obtain ok1 w1 where l: "Base128StreamWriter_tput_loop False w xs = (ok1, w1)"
    by (cases "Base128StreamWriter_tput_loop False w xs")
  with assms(3) have "ok1" "w1 = w'"
    by (cases ok1; simp add: Base128StreamWriter_tput_def Base128StreamWriter_commit_def)+
  with l tput_loop_unsigned_True[OF assms(1,2), of xs w'] show ?thesis by simp
qed

lemma tput_unsigned_fits:
  assumes "w_end w \<le> length (w_mem w)" and "w_pos w + length (varints xs) \<le> w_end w"
  shows "Base128StreamWriter_tput False w (xs :: 'a::len word list) =
     (True, w\<lparr>w_mem := splice (w_mem w) (w_pos w) (varints xs),
              w_pos := w_pos w + length (varints xs)\<rparr>)"
proof -
  obtain ok1 w1 where l: "Base128StreamWriter_tput_loop False w xs = (ok1, w1)"
    by (cases "Base128StreamWriter_tput_loop False w xs")
  from tput_loop_unsigned_fits[OF assms] l have ok1 by simp
  have "w_pos w \<le> w_end w" using assms(2) by linarith
  with l \<open>ok1\<close> tput_loop_unsigned_True[OF assms(1), of xs w1] show ?thesis
    by (simp add: Base128StreamWriter_tput_def Base128StreamWriter_commit_def)
qed

lemma put_signed_negative:
  assumes "sint (v :: 'a::len word) < 0"
  shows "fst (Base128StreamWriter_put True w v) = False"
proof (cases "w_end w \<le> w_pos w")
  case True
  then show ?thesis by (simp add: Base128StreamWriter_put_def Base128Int_put_def)
next
  case False
  have "snd (Base128Int_put_loop True v (w_mem w) (w_pos w) (w_end w) (w_pos w)) = w_pos w"
    using assms by (rule put_loop_signed_negative)
  with False show ?thesis
    by (cases "Base128Int_put_loop True v (w_mem w) (w_pos w) (w_end w) (w_pos w)")
       (simp add: Base128StreamWriter_put_def Base128Int_put_def)
qed

lemma tput_loop_signed_negative:
  "x \<in> set xs \<Longrightarrow> sint (x :: 'a::len word) < 0 \<Longrightarrow>
   fst (Base128StreamWriter_tput_loop True w xs) = False"
proof (induction xs arbitrary: w)
  case Nil
  then show ?case by simp
next
  case (Cons y ys)
  obtain ok1 w1 where p: "Base128StreamWriter_put True w y = (ok1, w1)"
    by (cases "Base128StreamWriter_put True w y")
  show ?case
  proof (cases ok1)
    case False
    with p show ?thesis by simp
  next
    case True
    with p put_signed_negative[of y w] have "\<not> sint y < 0" by auto
    with Cons.prems have "x \<in> set ys" by auto
    from Cons.IH[OF this Cons.prems(2)] p True show ?thesis by simp
  qed
qed

lemma tput_signed_negative:
  assumes "x \<in> set xs" and "sint (x :: 'a::len word) < 0"
  shows "fst (Base128StreamWriter_tput True w xs) = False"
proof -
  obtain ok1 w1 where l: "Base128StreamWriter_tput_loop True w xs = (ok1, w1)"
    by (cases "Base128StreamWriter_tput_loop True w xs")
  from tput_loop_signed_negative[OF assms, of w] l have "\<not> ok1" by simp
  with l show ?thesis by (simp add: Base128StreamWriter_tput_def)
qed

lemma RLEStreamWriter_tput_outbuf:
  "RLEStreamWriter_tput sg nd w s xs =
     (case Base128StreamWriter_tput sg w (rle_outbuf (rle_prev s) (rle_reps s) xs) of
        (ok, w') \<Rightarrow> Inr (ok, w', s\<lparr>rle_prev := 0, rle_reps := 0\<rparr>))"
  by (simp add: RLEStreamWriter_tput_def rle_outbuf_def Let_def split: prod.splits)

lemma rle_outbuf_ok:
  assumes "length xs < 2 ^ LENGTH('a)"
  shows "rle_ok (rle_outbuf prev (0 :: 'a::len word) xs) \<and>
         rle_expand (rle_outbuf prev 0 xs) = xs"
proof -
  obtain out prev' reps' where l: "RLEStreamWriter_tput_loop xs prev (0 :: 'a word) [] = (out, prev', reps')"
    by (cases "RLEStreamWriter_tput_loop xs prev (0 :: 'a word) []")
  have a: "unat (0 :: 'a word) + length xs < 2 ^ LENGTH('a)" using assms by simp
  have b: "rle_ok ([] :: 'a word list)" by simp
  note f = rle_loop_expand[OF a b l]
  show ?thesis
  proof (cases "xs = []")
    case True
    with l show ?thesis by (simp add: rle_outbuf_def)
  next
    case False
    with f have lt: "length out < length xs * 2" and nz: "reps' \<noteq> 0" by auto
    from f have ok: "rle_ok out" and e: "rle_expand (out @ [reps', prev']) = xs" by auto
    from ok nz have "rle_ok (out @ [reps', prev'])" by (simp add: rle_ok_append)
    with lt l e show ?thesis by (simp add: rle_outbuf_def)
  qed
qed

lemma delta_loop_length:
  "DeltaStreamWriter_tput_loop xs p = (ds, p') \<Longrightarrow>
   length ds = length xs \<and> p' = last (p # xs) \<and> undelta p ds = xs"
proof (induction xs arbitrary: p ds p')
  case Nil
  then show ?case by auto
next
  case (Cons x xs)
  obtain ds1 p1 where r: "DeltaStreamWriter_tput_loop xs x = (ds1, p1)"
    by (cases "DeltaStreamWriter_tput_loop xs x")
  with Cons.prems have ds: "ds = (x - p) # ds1" and p': "p' = p1" by auto
  from Cons.IH[OF r] ds p' show ?case by auto
qed






lemma unat_minus_one_word: "(r :: 'a::len word) \<noteq> 0 \<Longrightarrow> unat (r - 1) = unat r - 1"
  by (simp add: unat_minus_one)




section \<open>Lemmas on the stacks\<close>



lemma DeltaRLEWriter_tput_frame:
  assumes "DeltaRLEWriter_tput nd w d xs = Inr (ok, w', d')"
  shows "length (w_mem w') = length (w_mem w) \<and> take (w_pos w) (w_mem w') = take (w_pos w) (w_mem w)
    \<and> w_end w' = w_end w \<and> w_begin w' = w_begin w \<and> w_pos w \<le> w_pos w'
    \<and> (\<not> ok \<longrightarrow> w_pos w' = w_pos w)
    \<and> d' = \<lparr>dw_stream = (dw_stream d)\<lparr>rle_prev := 0, rle_reps := 0\<rparr>,
            dw_prev = last (dw_prev d # xs)\<rparr>"
proof -
  obtain ds p' where dl: "DeltaStreamWriter_tput_loop xs (dw_prev d) = (ds, p')"
    by (cases "DeltaStreamWriter_tput_loop xs (dw_prev d)")
  note dlen = delta_loop_length[OF dl]
  let ?ps = "rle_outbuf (rle_prev (dw_stream d)) (rle_reps (dw_stream d)) ds"
  obtain ok1 w1 where t: "Base128StreamWriter_tput False w ?ps = (ok1, w1)"
    by (cases "Base128StreamWriter_tput False w ?ps")
  from assms dl t have "ok1 = ok" "w1 = w'"
    and d': "d' = d\<lparr>dw_stream := (dw_stream d)\<lparr>rle_prev := 0, rle_reps := 0\<rparr>, dw_prev := p'\<rparr>"
    by (auto simp: DeltaRLEWriter_tput_def DeltaStreamWriter_tput_def RLEStreamWriter_tput_outbuf
        split: if_splits)
  with tput_frame[OF t] dlen show ?thesis by auto
qed

lemma delta_constant_1000:
  "DeltaStreamWriter_tput_loop (replicate 16 (1000 :: u64)) 0 =
     ([1000, 0, 0, 0, 0, 0, 0, 0, 0, 0, 0, 0, 0, 0, 0, 0], 1000)"
  by code_simp

lemma rle_constant_1000:
  "rle_outbuf (0 :: u64) 0 [1000, 0, 0, 0, 0, 0, 0, 0, 0, 0, 0, 0, 0, 0, 0, 0] = [1, 1000, 15, 0]"
  by code_simp

lemma varints_constant_1000: "varints [1, 1000, 15, 0 :: u64] = [0x01, 0xE8, 0x07, 0x0F, 0x00]"
  by code_simp

lemma rle_commit_cases:
  assumes "w_end w \<le> length (w_mem w)"
    and "RLEStreamWriter_commit False w (s :: 'a::len word RLEStreamWriter) = (ok, w', s')"
  shows "s' = s
    \<and> ok = (w_pos w + length (varints [rle_reps s, rle_prev s]) \<le> w_end w)
    \<and> (ok \<longrightarrow> w' = w\<lparr>w_mem := splice (w_mem w) (w_pos w) (varints [rle_reps s, rle_prev s]),
                       w_pos := w_pos w + length (varints [rle_reps s, rle_prev s])\<rparr>)
    \<and> (\<not> ok \<longrightarrow> w_pos w' = w_pos w
                \<or> w_pos w' = w_pos w + length (varint_bytes (unat (rle_reps s))))"
proof -
  let ?c = "varint_bytes (unat (rle_reps s))" and ?v = "varint_bytes (unat (rle_prev s))"
  have vs: "varints [rle_reps s, rle_prev s] = ?c @ ?v" by (simp add: varints_def)
  obtain ok1 w1 where p1: "Base128StreamWriter_put False w (rle_reps s) = (ok1, w1)"
    by (cases "Base128StreamWriter_put False w (rle_reps s)")
  note c1 = put_unsigned_cases[OF assms(1) p1]
  note f1 = put_frame[OF p1]
  have pos: "0 < length ?v" by (rule length_varint_bytes_pos)
  show ?thesis
  proof (cases ok1)
    case False
    with p1 assms(2) have r: "\<not> ok" "w' = w1" "s' = s"
      by (simp_all add: RLEStreamWriter_commit_def)
    from c1 False have nf: "\<not> w_pos w + length ?c \<le> w_end w" by simp
    then have "\<not> w_pos w + length (?c @ ?v) \<le> w_end w" by simp
    moreover from f1 False have "w_pos w1 = w_pos w" by simp
    ultimately show ?thesis using r by (simp add: vs)
  next
    case True
    with c1 have fits1: "w_pos w + length ?c \<le> w_end w"
      and w1: "w1 = w\<lparr>w_mem := splice (w_mem w) (w_pos w) ?c, w_pos := w_pos w + length ?c\<rparr>"
      by simp_all
    from fits1 assms(1) have fm: "w_pos w + length ?c \<le> length (w_mem w)" by linarith
    have e1: "w_end w1 \<le> length (w_mem w1)" using assms(1) fm by (simp add: w1 length_splice)
    obtain ok2 w2 where p2: "Base128StreamWriter_put False w1 (rle_prev s) = (ok2, w2)"
      by (cases "Base128StreamWriter_put False w1 (rle_prev s)")
    note c2 = put_unsigned_cases[OF e1 p2]
    note f2 = put_frame[OF p2]
    from True p1 p2 assms(2) have r: "ok = ok2" "w' = w2" "s' = s"
      by (cases ok2; simp add: RLEStreamWriter_commit_def Base128StreamWriter_commit_def)+
    show ?thesis
    proof (cases ok2)
      case False
      with c2 have "\<not> w_pos w + length (?c @ ?v) \<le> w_end w" by (simp add: w1 add.assoc)
      moreover from f2 False have "w_pos w2 = w_pos w + length ?c" by (simp add: w1)
      ultimately show ?thesis using r False by (simp add: vs)
    next
      case True
      with c2 have "w_pos w + length (?c @ ?v) \<le> w_end w"
        and "w2 = w1\<lparr>w_mem := splice (w_mem w1) (w_pos w1) ?v, w_pos := w_pos w1 + length ?v\<rparr>"
        by (simp_all add: w1 add.assoc)
      then have "w_pos w + length (?c @ ?v) \<le> w_end w"
        and "w2 = w\<lparr>w_mem := splice (w_mem w) (w_pos w) (?c @ ?v),
                      w_pos := w_pos w + length (?c @ ?v)\<rparr>"
        using fm by (simp_all add: w1 splice_splice add.assoc)
      then show ?thesis using r True by (simp add: vs)
    qed
  qed
qed

lemma rle_expand_subset: "x \<in> set (rle_expand ps) \<Longrightarrow> x \<in> set ps"
  by (induction ps rule: rle_expand.induct) (auto split: if_splits)

lemma bit63_sint: "bit (x :: 64 word) 63 \<longleftrightarrow> sint x < 0"
  using bit_last_iff[of x] by simp

lemma rle_commit_signed_negative:
  assumes "sint (rle_prev s :: 'a::len word) < 0"
  shows "fst (RLEStreamWriter_commit True w s) = False"
proof -
  obtain ok1 w1 where p1: "Base128StreamWriter_put True w (rle_reps s) = (ok1, w1)"
    by (cases "Base128StreamWriter_put True w (rle_reps s)")
  obtain ok2 w2 where p2: "Base128StreamWriter_put True w1 (rle_prev s) = (ok2, w2)"
    by (cases "Base128StreamWriter_put True w1 (rle_prev s)")
  from put_signed_negative[OF assms, of w1] p2 have "\<not> ok2" by simp
  with p1 p2 show ?thesis
    by (cases ok1) (simp_all add: RLEStreamWriter_commit_def)
qed

lemma ZDeltaRLEWriter_tput_negative:
  assumes "rle_reps (dw_stream d) = 0" and "length xs < 2 ^ 64"
    and "DeltaStreamWriter_tput_loop xs (dw_prev d) = (ds, p')"
    and "y \<in> set ds" and "sint (zigzag_encode True y) < 0"
  shows "case ZDeltaRLEWriter_tput nd w d xs of
           Inl e \<Rightarrow> e = AssertionFailed \<and> \<not> nd \<and> \<not> length xs < 1000
         | Inr (ok, w', d') \<Rightarrow> \<not> ok \<and> w_pos w' = w_pos w"
proof (cases "\<not> nd \<and> \<not> length xs < 1000")
  case True
  then show ?thesis
    by (simp add: ZDeltaRLEWriter_tput_def DeltaStreamWriter_tput_def)
next
  case False
  note dlen = delta_loop_length[OF assms(3)]
  let ?zs = "map (zigzag_encode True) ds"
  let ?ps = "rle_outbuf (rle_prev (dw_stream d)) 0 ?zs"
  have "length ?zs < 2 ^ LENGTH(64)" using dlen assms(2) by simp
  from rle_outbuf_ok[OF this, of "rle_prev (dw_stream d)"]
  have e: "rle_expand ?ps = ?zs" by simp
  have "zigzag_encode True y \<in> set ?zs" using assms(4) by simp
  with e have m: "zigzag_encode True y \<in> set ?ps" by (metis rle_expand_subset)
  obtain ok1 w1 where t: "Base128StreamWriter_tput True w ?ps = (ok1, w1)"
    by (cases "Base128StreamWriter_tput True w ?ps")
  from tput_signed_negative[OF m assms(5), of w] t have nok: "\<not> ok1" by simp
  from tput_frame[OF t] nok have p: "w_pos w1 = w_pos w" by simp
  from False dlen have a2: "\<not> (\<not> nd \<and> \<not> length ds < 1000)" by simp
  show ?thesis
    using False a2 dlen assms(1,3) t nok p
    by (simp add: ZDeltaRLEWriter_tput_def DeltaStreamWriter_tput_def ZigZagStreamWriter_tput_def
        RLEStreamWriter_tput_outbuf)
qed

lemma RLEStreamReader_next_running:
  "rd_reps s \<noteq> 0 \<Longrightarrow>
   RLEStreamReader_next nd r (s :: 'a::len word RLEStreamReader) =
     Inr (rd_prev s, r, s\<lparr>rd_reps := rd_reps s - 1\<rparr>)"
  by (simp add: RLEStreamReader_next_def)

lemma RLEStreamReader_nexts_running:
  "j \<le> unat (rd_reps s) \<Longrightarrow>
   RLEStreamReader_nexts nd j r (s :: 'a::len word RLEStreamReader) =
     Inr (replicate j (rd_prev s), r, s\<lparr>rd_reps := rd_reps s - of_nat j\<rparr>)"
proof (induction j arbitrary: s)
  case 0
  then show ?case by simp
next
  case (Suc j)
  then have nz: "rd_reps s \<noteq> 0" by (auto simp: unat_eq_0)
  then have u: "unat (rd_reps s - 1) = unat (rd_reps s) - 1" by (rule unat_minus_one_word)
  let ?s1 = "s\<lparr>rd_reps := rd_reps s - 1\<rparr>"
  have "j \<le> unat (rd_reps ?s1)" using Suc.prems u by simp
  from Suc.IH[OF this] RLEStreamReader_next_running[OF nz, of nd r] show ?case
    by (simp add: diff_diff_eq)
qed










section \<open>The claims\<close>

subsection \<open>C2: the timestamp stack\<close>



subsection \<open>C3: the base-128 encoding of an unsigned 64-bit value\<close>

text \<open>
  Claim C3. For every \<open>u\<close> of type \<^verbatim>\<open>u64\<close> and every stream with at least 10 free bytes,
  \<^verbatim>\<open>Base128StreamWriter::put(u)\<close> succeeds and advances the cursor by exactly
  \<open>max 1 \<lceil>bitlen u / 7\<rceil>\<close> bytes; \<^verbatim>\<open>Base128StreamReader::next\<close> started on the first of
  these bytes, with any end not before the last of them, returns \<open>u\<close> and stops right
  behind them; and \<open>u = 0\<close> is written as the single byte \<^verbatim>\<open>0x00\<close>.
\<close>

theorem varint_roundtrip:
  assumes "w_pos w + 10 \<le> w_end w" and "w_end w \<le> length (w_mem w)"
    and "Base128StreamWriter_put False w (u :: u64) = (ok, w')"
    and "w_pos w' \<le> fin"
  shows "ok \<and> w_pos w \<le> w_pos w'
    \<and> int (w_pos w' - w_pos w) = max 1 \<lceil>real_of_int (bitlen (uint u)) / 7\<rceil>
    \<and> Base128StreamReader_next nd (Base128StreamReader_new (w_mem w') (w_pos w) fin)
        = Inr (u, Base128StreamReader_new (w_mem w') (w_pos w') fin)
    \<and> Base128StreamWriter_put False w (0 :: u64)
        = (True, w\<lparr>w_mem := (w_mem w)[w_pos w := 0x00], w_pos := w_pos w + 1\<rparr>)"
proof -
  let ?bs = "varint_bytes (unat u)"
  have len: "length ?bs \<le> 10" by (rule length_varint_bytes_u64)
  with assms have fits: "w_pos w + length ?bs \<le> w_end w" by linarith
  from put_unsigned_ok[OF fits assms(2)] assms(3)
  have ok: "ok" and w': "w' = w\<lparr>w_mem := splice (w_mem w) (w_pos w) ?bs,
              w_pos := w_pos w + length ?bs\<rparr>" by auto
  have pm: "w_pos w \<le> length (w_mem w)" using assms by linarith
  have l: "int (w_pos w' - w_pos w) = max 1 \<lceil>real_of_int (bitlen (uint u)) / 7\<rceil>"
    using length_varint_bytes_ceiling[of "unat u"] by (simp add: w')
  have rd: "Base128StreamReader_next nd (Base128StreamReader_new (w_mem w') (w_pos w) fin)
        = Inr (u, Base128StreamReader_new (w_mem w') (w_pos w') fin)"
  proof -
    let ?r = "Base128StreamReader_new (w_mem w') (w_pos w) fin"
    have a: "take (length ?bs) (drop (r_pos ?r) (r_mem ?r)) = ?bs"
      using pm by (simp add: Base128StreamReader_new_def w' take_drop_splice)
    have b: "r_pos ?r + length ?bs \<le> r_end ?r"
      using assms(4) by (simp add: Base128StreamReader_new_def w')
    from next_varint_u64[OF a b, of nd] show ?thesis
      by (simp add: Base128StreamReader_new_def w')
  qed
  have z: "Base128StreamWriter_put False w (0 :: u64)
        = (True, w\<lparr>w_mem := (w_mem w)[w_pos w := 0x00], w_pos := w_pos w + 1\<rparr>)"
  proof -
    have vb0: "varint_bytes 0 = [0]" by (subst varint_bytes.simps) simp
    have f0: "w_pos w + length (varint_bytes (unat (0 :: u64))) \<le> w_end w"
      using assms(1) by (simp add: vb0)
    have lt: "w_pos w < length (w_mem w)" using assms by linarith
    from put_unsigned_ok[OF f0 assms(2)] lt show ?thesis
      by (simp add: vb0 splice_def upd_conv_take_nth_drop)
  qed
  from ok l rd z show ?thesis by (simp add: w')
qed

theorem varint_roundtrip_witness:
  "w_pos (Base128StreamWriter_new [0, 0, 0, 0, 0, 0, 0, 0, 0, 0] 0 10) + 10
     \<le> w_end (Base128StreamWriter_new [0, 0, 0, 0, 0, 0, 0, 0, 0, 0] 0 10)
   \<and> w_end (Base128StreamWriter_new [0, 0, 0, 0, 0, 0, 0, 0, 0, 0] 0 10)
     \<le> length (w_mem (Base128StreamWriter_new [0, 0, 0, 0, 0, 0, 0, 0, 0, 0] 0 10))
   \<and> Base128StreamWriter_put False (Base128StreamWriter_new [0, 0, 0, 0, 0, 0, 0, 0, 0, 0] 0 10)
       (300 :: u64)
     = (True, \<lparr>w_mem = [0xAC, 0x02, 0, 0, 0, 0, 0, 0, 0, 0], w_begin = 0, w_end = 10, w_pos = 2\<rparr>)
   \<and> (Base128StreamReader_next False
        (Base128StreamReader_new [0xAC, 0x02, 0, 0, 0, 0, 0, 0, 0, 0] 0 2)
        :: error + (u64 \<times> Base128StreamReader))
     = Inr (300, Base128StreamReader_new [0xAC, 0x02, 0, 0, 0, 0, 0, 0, 0, 0] 2 2)
   \<and> max 1 \<lceil>real_of_int (bitlen (uint (300 :: u64))) / 7\<rceil> = 2"
proof -
  let ?w = "Base128StreamWriter_new [0, 0, 0, 0, 0, 0, 0, 0, 0, 0] 0 10"
  let ?w' = "\<lparr>w_mem = [0xAC, 0x02, 0, 0, 0, 0, 0, 0, 0, 0], w_begin = 0, w_end = 10, w_pos = 2\<rparr>"
  have h1: "w_pos ?w + 10 \<le> w_end ?w" by (simp add: Base128StreamWriter_new_def)
  have h2: "w_end ?w \<le> length (w_mem ?w)" by (simp add: Base128StreamWriter_new_def)
  have h3: "Base128StreamWriter_put False ?w (300 :: u64) = (True, ?w')"
    by (simp add: Base128StreamWriter_new_def Base128StreamWriter_put_def Base128Int_put_def
        Base128Int_put_loop.simps shr_def drop_bit_eq_div)
  have h4: "w_pos ?w' \<le> 2" by simp
  from varint_roundtrip[OF h1 h2 h3 h4, of False] h1 h2 h3
  show ?thesis by (simp add: Base128StreamWriter_new_def)
qed

subsection \<open>C4: zig-zag on signed 64-bit operands\<close>

text \<open>
  Claim C4 says that decoding the zig-zag encoding returns \<open>x\<close> for every signed 64-bit \<open>x\<close>.
  With the \<^verbatim>\<open>i64\<close> operands of \<^verbatim>\<open>ZDeltaRLEReader\<close> the shift \<^verbatim>\<open>n >> 1\<close> of
  \<^verbatim>\<open>ZigZagStreamReader::next\<close> is arithmetic: at \<open>x = 2\<^sup>6\<^sup>2\<close> the encoding is
  \<^verbatim>\<open>0x8000000000000000\<close> and the decoder returns \<^verbatim>\<open>0xC000000000000000\<close>, that is
  \<open>- 2\<^sup>6\<^sup>2\<close>.
\<close>

theorem zigzag_i64_fails_at_2_62:
  "zigzag_encode True (0x4000000000000000 :: i64) = 0x8000000000000000
   \<and> zigzag_decode True (0x8000000000000000 :: i64) = 0xC000000000000000
   \<and> zigzag_decode True (zigzag_encode True (0x4000000000000000 :: i64)) \<noteq> 0x4000000000000000"
  by (simp add: zigzag_encode_def zigzag_decode_def shr_def)

subsection \<open>C5: a failed transactional put\<close>

text \<open>
  Claim C5, as amended. When \<^verbatim>\<open>DeltaRLEWriter::tput\<close> (or \<^verbatim>\<open>Base128StreamWriter::tput\<close>)
  returns \<^verbatim>\<open>false\<close>, the byte cursor is back at its position before the call and no byte
  before the cursor has changed. The state of the filters is not rolled back: the delta
  writer's \<^verbatim>\<open>prev_\<close> is the last value of the rejected chunk, and the run-length writer's
  \<^verbatim>\<open>prev_\<close> and \<^verbatim>\<open>reps_\<close> are cleared to zero, as after every \<^verbatim>\<open>tput\<close>. On unsigned
  values \<^verbatim>\<open>Base128StreamWriter::tput\<close> returns \<^verbatim>\<open>true\<close> exactly when all encodings fit.
\<close>

theorem tput_failure_restores_cursor_only:
  assumes "DeltaRLEWriter_tput nd w d xs = Inr (False, w', d')"
    and "Base128StreamWriter_tput sg w0 (ys :: u64 list) = (False, w0')"
    and "w_pos w1 \<le> w_end w1" and "w_end w1 \<le> length (w_mem w1)"
  shows "w_pos w' = w_pos w \<and> take (w_pos w) (w_mem w') = take (w_pos w) (w_mem w)
    \<and> length (w_mem w') = length (w_mem w) \<and> w_begin w' = w_begin w \<and> w_end w' = w_end w
    \<and> dw_prev d' = last (dw_prev d # xs)
    \<and> rle_prev (dw_stream d') = 0 \<and> rle_reps (dw_stream d') = 0
    \<and> w_pos w0' = w_pos w0 \<and> take (w_pos w0) (w_mem w0') = take (w_pos w0) (w_mem w0)
    \<and> length (w_mem w0') = length (w_mem w0) \<and> w_begin w0' = w_begin w0 \<and> w_end w0' = w_end w0
    \<and> fst (Base128StreamWriter_tput False w1 (zs :: u64 list))
        = (w_pos w1 + length (varints zs) \<le> w_end w1)"
proof -
  have "fst (Base128StreamWriter_tput False w1 zs) = (w_pos w1 + length (varints zs) \<le> w_end w1)"
  proof (cases "w_pos w1 + length (varints zs) \<le> w_end w1")
    case True
    from tput_unsigned_fits[OF assms(4) True] True show ?thesis by simp
  next
    case False
    obtain ok2 w2 where t: "Base128StreamWriter_tput False w1 zs = (ok2, w2)"
      by (cases "Base128StreamWriter_tput False w1 zs")
    have "\<not> ok2"
    proof
      assume ok2
      with t tput_unsigned_True[OF assms(4,3), of zs w2] False show False by simp
    qed
    with t False show ?thesis by simp
  qed
  with DeltaRLEWriter_tput_frame[OF assms(1)] tput_frame[OF assms(2)] show ?thesis by simp
qed

theorem tput_failure_restores_cursor_only_witness:
  "DeltaRLEWriter_tput False (Base128StreamWriter_new [0] 0 1)
      (DeltaRLEWriter_new (Base128StreamWriter_new [0] 0 1)) [5]
    = Inr (False, \<lparr>w_mem = [1], w_begin = 0, w_end = 1, w_pos = 0\<rparr>,
           \<lparr>dw_stream = \<lparr>rle_prev = 0, rle_reps = 0, start_size = 0\<rparr>, dw_prev = 5\<rparr>)
   \<and> Base128StreamWriter_tput False (Base128StreamWriter_new [9, 0] 1 2) [1, 5 :: u64]
    = (False, \<lparr>w_mem = [9, 1], w_begin = 1, w_end = 2, w_pos = 1\<rparr>)
   \<and> w_pos \<lparr>w_mem = [1], w_begin = 0, w_end = 1, w_pos = 0\<rparr>
       = w_pos (Base128StreamWriter_new [0] 0 1)
   \<and> dw_prev \<lparr>dw_stream = \<lparr>rle_prev = 0 :: u64, rle_reps = 0, start_size = 0\<rparr>,
              dw_prev = 5 :: u64\<rparr> = last (dw_prev (DeltaRLEWriter_new (Base128StreamWriter_new [0] 0 1)) # [5])
   \<and> take (w_pos (Base128StreamWriter_new [9, 0] 1 2)) (w_mem \<lparr>w_mem = [9, 1], w_begin = 1, w_end = 2, w_pos = 1\<rparr>)
       = take (w_pos (Base128StreamWriter_new [9, 0] 1 2)) (w_mem (Base128StreamWriter_new [9, 0] 1 2))
   \<and> w_pos (Base128StreamWriter_new [9, 0] 1 2) \<le> w_end (Base128StreamWriter_new [9, 0] 1 2)
   \<and> w_end (Base128StreamWriter_new [9, 0] 1 2) \<le> length (w_mem (Base128StreamWriter_new [9, 0] 1 2))
   \<and> fst (Base128StreamWriter_tput False (Base128StreamWriter_new [9, 0] 1 2) [1, 5 :: u64])
       = (w_pos (Base128StreamWriter_new [9, 0] 1 2) + length (varints [1, 5 :: u64])
            \<le> w_end (Base128StreamWriter_new [9, 0] 1 2))"
proof -
  have h1: "DeltaRLEWriter_tput False (Base128StreamWriter_new [0] 0 1)
      (DeltaRLEWriter_new (Base128StreamWriter_new [0] 0 1)) [5]
    = Inr (False, \<lparr>w_mem = [1], w_begin = 0, w_end = 1, w_pos = 0\<rparr>,
           \<lparr>dw_stream = \<lparr>rle_prev = 0, rle_reps = 0, start_size = 0\<rparr>, dw_prev = 5\<rparr>)"
    by (simp add: DeltaRLEWriter_tput_def DeltaStreamWriter_tput_def RLEStreamWriter_tput_def
      Base128StreamWriter_tput_def Base128StreamWriter_put_def Base128Int_put_def
      Base128Int_put_loop.simps shr_def DeltaRLEWriter_new_def RLEStreamWriter_new_def
      Base128StreamWriter_new_def size_w_def Let_def drop_bit_eq_div)
  have h2: "Base128StreamWriter_tput False (Base128StreamWriter_new [9, 0] 1 2) [1, 5 :: u64]
    = (False, \<lparr>w_mem = [9, 1], w_begin = 1, w_end = 2, w_pos = 1\<rparr>)"
    by (simp add: Base128StreamWriter_tput_def Base128StreamWriter_put_def Base128Int_put_def
      Base128Int_put_loop.simps shr_def Base128StreamWriter_new_def Let_def drop_bit_eq_div)
  have h3: "w_pos (Base128StreamWriter_new [9, 0] 1 2) \<le> w_end (Base128StreamWriter_new [9, 0] 1 2)"
    by (simp add: Base128StreamWriter_new_def)
  have h4: "w_end (Base128StreamWriter_new [9, 0] 1 2)
      \<le> length (w_mem (Base128StreamWriter_new [9, 0] 1 2))"
    by (simp add: Base128StreamWriter_new_def)
  from tput_failure_restores_cursor_only[OF h1 h2 h3 h4, of "[1, 5]"] h1 h2 h3 h4 show ?thesis
    by (simp add: Base128StreamWriter_new_def DeltaRLEWriter_new_def)
qed

text \<open>
  The claim as stated fails: after a rejected chunk \<open>[5]\<close> on a one-byte buffer the delta
  writer's \<^verbatim>\<open>prev_\<close> is 5, not its value 0 before the call.
\<close>

theorem tput_rollback_counterexample:
  "DeltaRLEWriter_tput False (Base128StreamWriter_new [0] 0 1)
      (DeltaRLEWriter_new (Base128StreamWriter_new [0] 0 1)) [5]
    = Inr (False, \<lparr>w_mem = [1], w_begin = 0, w_end = 1, w_pos = 0\<rparr>,
           \<lparr>dw_stream = \<lparr>rle_prev = 0, rle_reps = 0, start_size = 0\<rparr>, dw_prev = 5\<rparr>)
   \<and> dw_prev (DeltaRLEWriter_new (Base128StreamWriter_new [0] 0 1)) = (0 :: u64)
   \<and> dw_prev \<lparr>dw_stream = \<lparr>rle_prev = 0 :: u64, rle_reps = 0, start_size = 0\<rparr>,
              dw_prev = 5 :: u64\<rparr>
       \<noteq> dw_prev (DeltaRLEWriter_new (Base128StreamWriter_new [0] 0 1))"
  by (simp add: DeltaRLEWriter_tput_def DeltaStreamWriter_tput_def RLEStreamWriter_tput_def
      Base128StreamWriter_tput_def Base128StreamWriter_put_def Base128Int_put_def
      Base128Int_put_loop.simps shr_def DeltaRLEWriter_new_def RLEStreamWriter_new_def
      Base128StreamWriter_new_def size_w_def Let_def drop_bit_eq_div)

subsection \<open>C6: truncated input of the base-128 reader\<close>




subsection \<open>C7: the constant series\<close>

text \<open>
  Claim C7, as amended. Flushing the 16 timestamps 1000 through the delta and run-length
  stack with initial \<^verbatim>\<open>prev_ = 0\<close> writes two pairs, \<open>(1, 1000)\<close> for the first difference
  and \<open>(15, 0)\<close> for the fifteen zero differences: the five bytes
  \<^verbatim>\<open>01 E8 07 0F 00\<close>.
\<close>

theorem constant_series_two_pairs:
  assumes "w_pos w + 5 \<le> w_end w" and "w_end w \<le> length (w_mem w)"
    and "dw_prev d = 0" and "rle_prev (dw_stream d) = 0" and "rle_reps (dw_stream d) = 0"
  shows "DeltaRLEWriter_tput nd w d (replicate 16 1000)
     = Inr (True, w\<lparr>w_mem := splice (w_mem w) (w_pos w) [0x01, 0xE8, 0x07, 0x0F, 0x00],
                    w_pos := w_pos w + 5\<rparr>,
            d\<lparr>dw_prev := 1000\<rparr>)
    \<and> rle_outbuf (rle_prev (dw_stream d)) (rle_reps (dw_stream d))
         (fst (DeltaStreamWriter_tput_loop (replicate 16 1000) (dw_prev d))) = [1, 1000, 15, 0]"
proof -
  have f: "w_pos w + length (varints [1, 1000, 15, 0 :: u64]) \<le> w_end w"
    using assms(1) by (simp add: varints_constant_1000)
  have s: "(dw_stream d)\<lparr>rle_prev := 0, rle_reps := 0\<rparr> = dw_stream d"
    using assms(4,5) by simp
  from tput_unsigned_fits[OF assms(2) f] assms(3,4,5) s show ?thesis
    by (simp add: DeltaRLEWriter_tput_def DeltaStreamWriter_tput_def RLEStreamWriter_tput_outbuf
        delta_constant_1000 rle_constant_1000 varints_constant_1000)
qed

theorem constant_series_two_pairs_witness:
  "w_pos (Base128StreamWriter_new [0, 0, 0, 0, 0, 0, 0, 0] 0 8) + 5
      \<le> w_end (Base128StreamWriter_new [0, 0, 0, 0, 0, 0, 0, 0] 0 8)
   \<and> w_end (Base128StreamWriter_new [0, 0, 0, 0, 0, 0, 0, 0] 0 8)
      \<le> length (w_mem (Base128StreamWriter_new [0, 0, 0, 0, 0, 0, 0, 0] 0 8))
   \<and> dw_prev (DeltaRLEWriter_new (Base128StreamWriter_new [0, 0, 0, 0, 0, 0, 0, 0] 0 8)) = 0
   \<and> DeltaRLEWriter_tput False (Base128StreamWriter_new [0, 0, 0, 0, 0, 0, 0, 0] 0 8)
        (DeltaRLEWriter_new (Base128StreamWriter_new [0, 0, 0, 0, 0, 0, 0, 0] 0 8))
        (replicate 16 1000)
     = Inr (True, \<lparr>w_mem = [0x01, 0xE8, 0x07, 0x0F, 0x00, 0, 0, 0], w_begin = 0, w_end = 8,
                    w_pos = 5\<rparr>,
            \<lparr>dw_stream = \<lparr>rle_prev = 0, rle_reps = 0, start_size = 0\<rparr>, dw_prev = 1000\<rparr>)"
proof -
  let ?w = "Base128StreamWriter_new [0, 0, 0, 0, 0, 0, 0, 0] 0 8"
  let ?d = "DeltaRLEWriter_new ?w"
  have h1: "w_pos ?w + 5 \<le> w_end ?w" by (simp add: Base128StreamWriter_new_def)
  have h2: "w_end ?w \<le> length (w_mem ?w)" by (simp add: Base128StreamWriter_new_def)
  have h3: "dw_prev ?d = 0" by (simp add: DeltaRLEWriter_new_def)
  have h4: "rle_prev (dw_stream ?d) = 0" by (simp add: DeltaRLEWriter_new_def RLEStreamWriter_new_def)
  have h5: "rle_reps (dw_stream ?d) = 0" by (simp add: DeltaRLEWriter_new_def RLEStreamWriter_new_def)
  from constant_series_two_pairs[OF h1 h2 h3 h4 h5, of False] h1 h2 h3 show ?thesis
    by (simp add: Base128StreamWriter_new_def DeltaRLEWriter_new_def RLEStreamWriter_new_def
        splice_def size_w_def)
qed

text \<open>
  The claim as stated fails: the pairs handed to the byte stream are not the single pair
  \<open>(15, 1000)\<close>, and the bytes written are not \<^verbatim>\<open>0F E8 07\<close>.
\<close>

theorem constant_series_counterexample:
  "rle_outbuf (0 :: u64) 0 (fst (DeltaStreamWriter_tput_loop (replicate 16 1000) 0))
      = [1, 1000, 15, 0]
   \<and> rle_outbuf (0 :: u64) 0 (fst (DeltaStreamWriter_tput_loop (replicate 16 1000) 0))
      \<noteq> [15, 1000]
   \<and> DeltaRLEWriter_tput False (Base128StreamWriter_new [0, 0, 0, 0, 0, 0, 0, 0] 0 8)
        (DeltaRLEWriter_new (Base128StreamWriter_new [0, 0, 0, 0, 0, 0, 0, 0] 0 8))
        (replicate 16 1000)
     \<noteq> Inr (True, \<lparr>w_mem = [0x0F, 0xE8, 0x07, 0, 0, 0, 0, 0], w_begin = 0, w_end = 8,
                    w_pos = 3\<rparr>,
            \<lparr>dw_stream = \<lparr>rle_prev = 0, rle_reps = 0, start_size = 0\<rparr>, dw_prev = 1000\<rparr>)"
proof -
  have a: "rle_outbuf (0 :: u64) 0 (fst (DeltaStreamWriter_tput_loop (replicate 16 1000) 0))
      = [1, 1000, 15, 0]"
    by (simp add: delta_constant_1000 rle_constant_1000)
  have b: "DeltaRLEWriter_tput False (Base128StreamWriter_new [0, 0, 0, 0, 0, 0, 0, 0] 0 8)
        (DeltaRLEWriter_new (Base128StreamWriter_new [0, 0, 0, 0, 0, 0, 0, 0] 0 8))
        (replicate 16 1000)
     = Inr (True, \<lparr>w_mem = [0x01, 0xE8, 0x07, 0x0F, 0x00, 0, 0, 0], w_begin = 0, w_end = 8,
                    w_pos = 5\<rparr>,
            \<lparr>dw_stream = \<lparr>rle_prev = 0, rle_reps = 0, start_size = 0\<rparr>, dw_prev = 1000\<rparr>)"
    by code_simp
  show ?thesis unfolding a b by simp
qed

subsection \<open>C8: commit of the run-length writer\<close>

text \<open>
  Claim C8, as amended. On an unsigned instantiation \<^verbatim>\<open>RLEStreamWriter::commit\<close> returns
  \<^verbatim>\<open>true\<close> exactly when the encodings of \<^verbatim>\<open>reps_\<close> and \<^verbatim>\<open>prev_\<close> both fit, and then it
  has appended exactly this one pair; on a writer on which no value was put, the pair is
  \<open>(0, 0)\<close>, the two bytes \<^verbatim>\<open>00 00\<close>. When they do not fit it returns \<^verbatim>\<open>false\<close> and has
  appended nothing, or the repeat count alone. The state of the writer is unchanged.
\<close>

theorem rle_commit_pair_when_room:
  assumes "w_end w \<le> length (w_mem w)"
    and "RLEStreamWriter_commit False w (s :: 'a::len word RLEStreamWriter) = (ok, w', s')"
  shows "s' = s
    \<and> ok = (w_pos w + length (varints [rle_reps s, rle_prev s]) \<le> w_end w)
    \<and> (ok \<longrightarrow> w' = w\<lparr>w_mem := splice (w_mem w) (w_pos w) (varints [rle_reps s, rle_prev s]),
                       w_pos := w_pos w + length (varints [rle_reps s, rle_prev s])\<rparr>)
    \<and> (\<not> ok \<longrightarrow> w_pos w' = w_pos w
                \<or> w_pos w' = w_pos w + length (varint_bytes (unat (rle_reps s))))
    \<and> varints [rle_reps (RLEStreamWriter_new w0 :: 'a word RLEStreamWriter),
                rle_prev (RLEStreamWriter_new w0 :: 'a word RLEStreamWriter)] = [0x00, 0x00]"
proof -
  have vb0: "varint_bytes 0 = [0]" by (subst varint_bytes.simps) simp
  have fresh: "varints [rle_reps (RLEStreamWriter_new w0 :: 'a word RLEStreamWriter),
                rle_prev (RLEStreamWriter_new w0 :: 'a word RLEStreamWriter)] = [0x00, 0x00]"
    by (simp add: varints_def RLEStreamWriter_new_def vb0)
  from rle_commit_cases[OF assms] fresh show ?thesis by blast
qed

theorem rle_commit_pair_when_room_witness:
  "w_end (Base128StreamWriter_new [7, 7, 7] 0 3)
       \<le> length (w_mem (Base128StreamWriter_new [7, 7, 7] 0 3))
   \<and> RLEStreamWriter_commit False (Base128StreamWriter_new [7, 7, 7] 0 3)
        (RLEStreamWriter_new (Base128StreamWriter_new [7, 7, 7] 0 3) :: u64 RLEStreamWriter)
      = (True, \<lparr>w_mem = [0, 0, 7], w_begin = 0, w_end = 3, w_pos = 2\<rparr>,
         RLEStreamWriter_new (Base128StreamWriter_new [7, 7, 7] 0 3))
   \<and> True = (w_pos (Base128StreamWriter_new [7, 7, 7] 0 3)
        + length (varints
            [rle_reps (RLEStreamWriter_new (Base128StreamWriter_new [7, 7, 7] 0 3)
                        :: u64 RLEStreamWriter),
             rle_prev (RLEStreamWriter_new (Base128StreamWriter_new [7, 7, 7] 0 3)
                        :: u64 RLEStreamWriter)])
        \<le> w_end (Base128StreamWriter_new [7, 7, 7] 0 3))
   \<and> varints [rle_reps (RLEStreamWriter_new (Base128StreamWriter_new [7, 7, 7] 0 3)
                        :: u64 RLEStreamWriter),
               rle_prev (RLEStreamWriter_new (Base128StreamWriter_new [7, 7, 7] 0 3)
                        :: u64 RLEStreamWriter)] = [0x00, 0x00]"
proof -
  let ?w = "Base128StreamWriter_new [7, 7, 7] 0 3"
  let ?s = "RLEStreamWriter_new ?w :: u64 RLEStreamWriter"
  have h2: "w_end ?w \<le> length (w_mem ?w)" by (simp add: Base128StreamWriter_new_def)
  have h3: "RLEStreamWriter_commit False ?w ?s
      = (True, \<lparr>w_mem = [0, 0, 7], w_begin = 0, w_end = 3, w_pos = 2\<rparr>, ?s)"
    by code_simp
  note t = rle_commit_pair_when_room[OF h2 h3, of ?w]
  show ?thesis
    apply (intro conjI)
       apply (rule h2)
      apply (rule h3)
     apply (rule t[THEN conjunct2, THEN conjunct1])
    apply (rule t[THEN conjunct2, THEN conjunct2, THEN conjunct2, THEN conjunct2])
    done
qed

text \<open>
  The claim as stated fails: with one free byte \<^verbatim>\<open>commit\<close> appends the count only and
  returns \<^verbatim>\<open>false\<close>; with no free byte it appends nothing.
\<close>

theorem rle_commit_counterexample:
  "RLEStreamWriter_commit False (Base128StreamWriter_new [7] 0 1)
      (RLEStreamWriter_new (Base128StreamWriter_new [7] 0 1) :: u64 RLEStreamWriter)
    = (False, \<lparr>w_mem = [0], w_begin = 0, w_end = 1, w_pos = 1\<rparr>,
       RLEStreamWriter_new (Base128StreamWriter_new [7] 0 1))
   \<and> RLEStreamWriter_commit False (Base128StreamWriter_new [7] 1 1)
      (RLEStreamWriter_new (Base128StreamWriter_new [7] 1 1) :: u64 RLEStreamWriter)
    = (False, Base128StreamWriter_new [7] 1 1,
       RLEStreamWriter_new (Base128StreamWriter_new [7] 1 1))"
  by code_simp

subsection \<open>C9: negative values of a signed instantiation\<close>

text \<open>
  Claim C9. For a signed \<^verbatim>\<open>TVal\<close> and a negative value \<^verbatim>\<open>Base128StreamWriter::put\<close>
  returns \<^verbatim>\<open>false\<close> on every buffer and leaves the cursor where it was. So a chunk with a
  difference whose zig-zag form has bit 63 set is rejected by \<^verbatim>\<open>ZDeltaRLEWriter::tput\<close>
  (the run-length writer having no pending run; the length of the chunk is a \<^verbatim>\<open>size_t\<close>),
  and \<^verbatim>\<open>commit\<close> of the \<^verbatim>\<open>i64\<close> run-length writer fails when such a value is pending.
\<close>

theorem signed_negative_put_fails:
  assumes "sint (v :: 'a::len word) < 0"
    and "rle_reps (dw_stream d) = 0" and "length xs < 2 ^ 64"
    and "DeltaStreamWriter_tput_loop xs (dw_prev d) = (ds, p')"
    and "y \<in> set ds" and "bit (zigzag_encode True y) 63"
    and "bit (rle_prev s :: i64) 63"
  shows "fst (Base128StreamWriter_put True w v) = False
    \<and> w_pos (snd (Base128StreamWriter_put True w v)) = w_pos w
    \<and> (case ZDeltaRLEWriter_tput nd w0 d xs of
          Inl e \<Rightarrow> e = AssertionFailed \<and> \<not> nd \<and> \<not> length xs < 1000
        | Inr (ok, w', d') \<Rightarrow> \<not> ok \<and> w_pos w' = w_pos w0)
    \<and> fst (RLEStreamWriter_commit True w0 s) = False"
proof -
  obtain ok1 w1 where p: "Base128StreamWriter_put True w v = (ok1, w1)"
    by (cases "Base128StreamWriter_put True w v")
  from put_signed_negative[OF assms(1), of w] p have nok: "\<not> ok1" by simp
  from put_frame[OF p] nok have "w_pos w1 = w_pos w" by simp
  with p nok have a: "fst (Base128StreamWriter_put True w v) = False"
    "w_pos (snd (Base128StreamWriter_put True w v)) = w_pos w" by simp_all
  from assms(6) have zneg: "sint (zigzag_encode True y) < 0" by (simp add: bit63_sint)
  note b = ZDeltaRLEWriter_tput_negative[OF assms(2,3,4,5) zneg, of nd w0]
  from assms(7) have "sint (rle_prev s) < 0" by (simp add: bit63_sint)
  note c = rle_commit_signed_negative[OF this, of w0]
  from a b c show ?thesis by (intro conjI)
qed

theorem signed_negative_put_fails_witness:
  "sint (- 1 :: i64) < 0
   \<and> rle_reps (dw_stream (\<lparr>dw_stream = \<lparr>rle_prev = 0, rle_reps = 0, start_size = 0\<rparr>,
                            dw_prev = 0\<rparr> :: ZDeltaRLEWriter)) = 0
   \<and> length [0x4000000000000000 :: i64] < 2 ^ 64
   \<and> DeltaStreamWriter_tput_loop [0x4000000000000000 :: i64]
        (dw_prev (\<lparr>dw_stream = \<lparr>rle_prev = 0, rle_reps = 0, start_size = 0\<rparr>,
                   dw_prev = 0\<rparr> :: ZDeltaRLEWriter))
      = ([0x4000000000000000], 0x4000000000000000)
   \<and> (0x4000000000000000 :: i64) \<in> set [0x4000000000000000]
   \<and> bit (zigzag_encode True (0x4000000000000000 :: i64)) 63
   \<and> bit (rle_prev (\<lparr>rle_prev = 0x8000000000000000, rle_reps = 1, start_size = 0\<rparr>
                       :: i64 RLEStreamWriter)) 63
   \<and> fst (Base128StreamWriter_put True (Base128StreamWriter_new [0, 0, 0, 0, 0, 0, 0, 0, 0, 0, 0, 0] 0 12)
           (- 1 :: i64)) = False
   \<and> ZDeltaRLEWriter_tput False (Base128StreamWriter_new [0, 0, 0, 0, 0, 0, 0, 0, 0, 0, 0, 0] 0 12)
        \<lparr>dw_stream = \<lparr>rle_prev = 0, rle_reps = 0, start_size = 0\<rparr>, dw_prev = 0\<rparr>
        [0x4000000000000000]
      = Inr (False,
             \<lparr>w_mem = [1, 0x80, 0x80, 0x80, 0x80, 0x80, 0x80, 0x80, 0x80, 0x80, 0xFF, 0xFF],
                w_begin = 0, w_end = 12, w_pos = 0\<rparr>,
             \<lparr>dw_stream = \<lparr>rle_prev = 0, rle_reps = 0, start_size = 0\<rparr>,
                dw_prev = 0x4000000000000000\<rparr>)"
proof -
  let ?d = "\<lparr>dw_stream = \<lparr>rle_prev = 0, rle_reps = 0, start_size = 0\<rparr>, dw_prev = 0\<rparr>
              :: ZDeltaRLEWriter"
  let ?s = "\<lparr>rle_prev = 0x8000000000000000, rle_reps = 1, start_size = 0\<rparr> :: i64 RLEStreamWriter"
  let ?w = "Base128StreamWriter_new [0, 0, 0, 0, 0, 0, 0, 0, 0, 0, 0, 0] 0 12"
  have h1: "sint (- 1 :: i64) < 0" by simp
  have h2: "rle_reps (dw_stream ?d) = 0" by simp
  have h3: "length [0x4000000000000000 :: i64] < 2 ^ 64" by simp
  have h4: "DeltaStreamWriter_tput_loop [0x4000000000000000 :: i64] (dw_prev ?d)
      = ([0x4000000000000000], 0x4000000000000000)" by simp
  have h5: "(0x4000000000000000 :: i64) \<in> set [0x4000000000000000]" by simp
  have h6: "bit (zigzag_encode True (0x4000000000000000 :: i64)) 63"
    by (simp add: zigzag_encode_def shr_def bit63_sint)
  have h7: "bit (rle_prev ?s) 63" by (simp add: bit63_sint)
  note t = signed_negative_put_fails[OF h1 h2 h3 h4 h5 h6 h7, of ?w False ?w]
  have e: "ZDeltaRLEWriter_tput False ?w ?d [0x4000000000000000]
      = Inr (False,
             \<lparr>w_mem = [1, 0x80, 0x80, 0x80, 0x80, 0x80, 0x80, 0x80, 0x80, 0x80, 0xFF, 0xFF],
                w_begin = 0, w_end = 12, w_pos = 0\<rparr>,
             \<lparr>dw_stream = \<lparr>rle_prev = 0, rle_reps = 0, start_size = 0\<rparr>,
                dw_prev = 0x4000000000000000\<rparr>)"
    by code_simp
  show ?thesis
    by (rule conjI, rule h1, rule conjI, rule h2, rule conjI, rule h3, rule conjI, rule h4,
        rule conjI, rule h5, rule conjI, rule h6, rule conjI, rule h7, rule conjI,
        rule t[THEN conjunct1], rule e)
qed

subsection \<open>C10: a pair with repeat count zero\<close>

text \<open>
  Claim C10. When \<^verbatim>\<open>RLEStreamReader::next\<close> loads a pair with repeat count 0, the counter
  wraps to \<open>2\<^sup>w - 1\<close> and the value of the pair is returned; the first \<open>k\<close> calls, for
  every \<open>k\<close> from 1 to \<open>2\<^sup>w\<close>, all return this value and read no byte behind the pair.
\<close>

theorem rle_zero_count_wraps:
  assumes "rd_reps (s :: 'a::len word RLEStreamReader) = 0"
    and "Base128StreamReader_next nd r = Inr (0 :: 'a word, r1)"
    and "Base128StreamReader_next nd r1 = Inr (v, r2)"
    and "0 < k" and "k \<le> 2 ^ LENGTH('a)"
  shows "RLEStreamReader_next nd r s = Inr (v, r2, s\<lparr>rd_reps := - 1, rd_prev := v\<rparr>)
    \<and> unat (- 1 :: 'a word) = 2 ^ LENGTH('a) - 1
    \<and> RLEStreamReader_nexts nd k r s
        = Inr (replicate k v, r2, s\<lparr>rd_reps := - of_nat k, rd_prev := v\<rparr>)"
proof -
  let ?s1 = "s\<lparr>rd_reps := - 1, rd_prev := v\<rparr>"
  have n1: "RLEStreamReader_next nd r s = Inr (v, r2, ?s1)"
    using assms(1,2,3) by (simp add: RLEStreamReader_next_def)
  have um: "unat (- 1 :: 'a word) = 2 ^ LENGTH('a) - 1"
    by (simp add: unsigned_minus_1_eq_mask mask_eq_exp_minus_1)
  obtain j where k: "k = Suc j" using assms(4) by (cases k) auto
  have "j \<le> unat (rd_reps ?s1)" using assms(5) k um by simp
  from RLEStreamReader_nexts_running[OF this, of nd r2]
  have "RLEStreamReader_nexts nd j r2 ?s1 =
      Inr (replicate j v, r2, ?s1\<lparr>rd_reps := - 1 - of_nat j\<rparr>)" by simp
  with n1 have "RLEStreamReader_nexts nd k r s =
      Inr (replicate k v, r2, s\<lparr>rd_reps := - 1 - of_nat j, rd_prev := v\<rparr>)"
    by (simp add: k)
  moreover have "(- 1 - of_nat j :: 'a word) = - of_nat k" by (simp add: k)
  ultimately show ?thesis using n1 um by simp
qed

theorem rle_zero_count_wraps_witness:
  "rd_reps (RLEStreamReader_new :: u64 RLEStreamReader) = 0
   \<and> Base128StreamReader_next False (Base128StreamReader_new [0, 7, 9] 0 3)
      = Inr (0 :: u64, Base128StreamReader_new [0, 7, 9] 1 3)
   \<and> Base128StreamReader_next False (Base128StreamReader_new [0, 7, 9] 1 3)
      = Inr (7 :: u64, Base128StreamReader_new [0, 7, 9] 2 3)
   \<and> (0 :: nat) < 3 \<and> (3 :: nat) \<le> 2 ^ LENGTH(64)
   \<and> RLEStreamReader_next False (Base128StreamReader_new [0, 7, 9] 0 3)
        (RLEStreamReader_new :: u64 RLEStreamReader)
      = Inr (7, Base128StreamReader_new [0, 7, 9] 2 3,
             RLEStreamReader_new\<lparr>rd_reps := - 1, rd_prev := 7\<rparr>)
   \<and> unat (- 1 :: u64) = 2 ^ LENGTH(64) - 1
   \<and> RLEStreamReader_nexts False 3 (Base128StreamReader_new [0, 7, 9] 0 3)
        (RLEStreamReader_new :: u64 RLEStreamReader)
      = Inr (replicate 3 7, Base128StreamReader_new [0, 7, 9] 2 3,
             RLEStreamReader_new\<lparr>rd_reps := - of_nat 3, rd_prev := 7\<rparr>)"
proof -
  let ?s = "RLEStreamReader_new :: u64 RLEStreamReader"
  have h1: "rd_reps ?s = 0" by (simp add: RLEStreamReader_new_def)
  have h2: "Base128StreamReader_next False (Base128StreamReader_new [0, 7, 9] 0 3)
      = Inr (0 :: u64, Base128StreamReader_new [0, 7, 9] 1 3)" by code_simp
  have h3: "Base128StreamReader_next False (Base128StreamReader_new [0, 7, 9] 1 3)
      = Inr (7 :: u64, Base128StreamReader_new [0, 7, 9] 2 3)" by code_simp
  have h4: "(0 :: nat) < 3" by simp
  have h5: "(3 :: nat) \<le> 2 ^ LENGTH(64)" by simp
  note t = rle_zero_count_wraps[OF h1 h2 h3 h4 h5]
  show ?thesis
    by (rule conjI, rule h1, rule conjI, rule h2, rule conjI, rule h3, rule conjI, rule h4,
        rule conjI, rule h5, rule t)
qed

end
